theory Spec2Isabelle
  imports Main "HOL-Library.Product_Lexorder"
begin

unbundle bit_operations_syntax

section \<open>Octants\<close>

text \<open>
  The octant of TMROctree.c: three int32_t coordinates, a level and a tag. The class
  itself (TMROctant.h) is not among the sources, so its fields are taken from their
  uses: \<^verbatim>\<open>array[i].x\<close>, \<^verbatim>\<open>array[i].level\<close>, \<^verbatim>\<open>elow->tag\<close>.
\<close>

record octant =
  xc :: int
  yc :: int
  zc :: int
  level :: int
  tag :: int

text \<open>Modelled from the spec: the compile-time constant LMAX (TMR_MAX_LEVEL), whose
  definition is in the missing header; the spec names 30 as its value.\<close>

definition TMR_MAX_LEVEL :: int where
  "TMR_MAX_LEVEL = 30"

definition hmax :: int where
  "hmax = 2 ^ nat TMR_MAX_LEVEL"

text \<open>
  \<^verbatim>\<open>1 << n\<close> on a 32-bit int: for a shift count in \<open>[0, 31)\<close> it is \<open>2^n\<close>, for the
  count 31 it is INT_MIN, and every other count is undefined behaviour, an error of the
  model.
\<close>

definition shift_ok :: "int \<Rightarrow> bool" where
  "shift_ok n \<longleftrightarrow> 0 \<le> n \<and> n < 32"

definition shl1 :: "int \<Rightarrow> int" where
  "shl1 n = (if n = 31 then - (2 ^ 31) else 2 ^ nat n)"

definition int32 :: "int \<Rightarrow> bool" where
  "int32 v \<longleftrightarrow> - (2 ^ 31) \<le> v \<and> v < 2 ^ 31"

text \<open>The value \<^verbatim>\<open>1 << (TMR_MAX_LEVEL - level)\<close> that the source computes for an
  octant.\<close>

definition edge :: "octant \<Rightarrow> int" where
  "edge q = shl1 (TMR_MAX_LEVEL - level q)"

text \<open>Modelled from the spec: the edge length \<open>h = 2^(LMAX - level)\<close> of an octant, which
  the octant algebra of the missing class TMROctant works with.\<close>

definition hlen :: "octant \<Rightarrow> int" where
  "hlen q = 2 ^ nat (TMR_MAX_LEVEL - level q)"

datatype error = IndexOutOfRange int | UndefinedArith | NullPointer

subsection \<open>Octant algebra\<close>




subsection \<open>Morton order\<close>

text \<open>Modelled from the spec: the Morton key interleaves the bits of x, y and z, the
  least significant bit of x at bit 0, of y at bit 1, of z at bit 2, and so on.\<close>

fun interleave :: "nat \<Rightarrow> nat \<Rightarrow> nat \<Rightarrow> nat \<Rightarrow> nat" where
  "interleave 0 a b c = 0"
| "interleave (Suc n) a b c =
     a mod 2 + 2 * (b mod 2) + 4 * (c mod 2) + 8 * interleave n (a div 2) (b div 2) (c div 2)"

definition mkey :: "octant \<Rightarrow> nat" where
  "mkey q = interleave 32 (nat (xc q mod 2 ^ 32)) (nat (yc q mod 2 ^ 32)) (nat (zc q mod 2 ^ 32))"

text \<open>The sort key: the Morton key of the origin, then the level (at one origin the
  shallower octant first).\<close>

definition okey :: "octant \<Rightarrow> nat \<times> int" where
  "okey q = (mkey q, level q)"

text \<open>Modelled from the spec: \<^verbatim>\<open>compare\<close> of TMROctant, the total Morton order on
  (x, y, z) with the level as tie-breaker; negative, zero or positive.\<close>

definition compare :: "octant \<Rightarrow> octant \<Rightarrow> int" where
  "compare a b = (if okey a < okey b then - 1 else if okey b < okey a then 1 else 0)"

subsection \<open>Octant arrays, hashes and queues\<close>

text \<open>Modelled from the spec: \<^verbatim>\<open>uniquify\<close> collapses each run of entries that compare
  equal to one representative.\<close>

fun uniquify :: "octant list \<Rightarrow> octant list" where
  "uniquify [] = []"
| "uniquify [a] = [a]"
| "uniquify (a # b # qs) =
     (if compare a b = 0 then uniquify (a # qs) else a # uniquify (b # qs))"

text \<open>Modelled from the spec: \<^verbatim>\<open>sort\<close> of TMROctantArray. The source's callers rely on
  it to sort uniquely (``Cover the hash table to a list and uniquely sort it'', ``Create an
  array of all the octants and uniquely sort it''), so it sorts in Morton order and then
  removes the duplicates.\<close>

definition sort_array :: "octant list \<Rightarrow> octant list" where
  "sort_array qs = uniquify (sort_key okey qs)"





section \<open>The octree\<close>

record octree =
  elements :: "octant list"
  nodes :: "octant list option"
  order :: int

subsection \<open>findEnclosing\<close>

text \<open>An array read \<^verbatim>\<open>elems[i]\<close>: outside \<open>[0, size)\<close> it is an error.\<close>

definition elem_at :: "octant list \<Rightarrow> int \<Rightarrow> error + octant" where
  "elem_at elems i =
     (if 0 \<le> i \<and> i < int (length elems) then Inr (elems ! nat i)
      else Inl (IndexOutOfRange i))"

text \<open>C's integer division by two, which truncates towards zero.\<close>

definition tdiv2 :: "int \<Rightarrow> int" where
  "tdiv2 n = (if 0 \<le> n then n div 2 else - ((- n) div 2))"

text \<open>One axis of the containment test \<^verbatim>\<open>e.x <= x1 && x2 <= e.x + h\<close>; the sum is
  evaluated only when the first comparison holds, and must not overflow.\<close>

definition axis_test :: "int \<Rightarrow> int \<Rightarrow> int \<Rightarrow> int \<Rightarrow> error + bool" where
  "axis_test ex h x1 x2 =
     (if ex \<le> x1 then (if int32 (ex + h) then Inr (x2 \<le> ex + h) else Inl UndefinedArith)
      else Inr False)"

text \<open>The test written three times in findEnclosing: does the cube of e contain the
  box \<open>[x1, x2) \<times> [y1, y2) \<times> [z1, z2)\<close>?\<close>

definition contains_test ::
  "octant \<Rightarrow> int \<Rightarrow> int \<Rightarrow> int \<Rightarrow> int \<Rightarrow> int \<Rightarrow> int \<Rightarrow> error + bool" where
  "contains_test e x1 y1 z1 x2 y2 z2 =
     (if \<not> shift_ok (TMR_MAX_LEVEL - level e) then Inl UndefinedArith
      else case axis_test (xc e) (edge e) x1 x2 of
        Inl err \<Rightarrow> Inl err
      | Inr False \<Rightarrow> Inr False
      | Inr True \<Rightarrow>
          (case axis_test (yc e) (edge e) y1 y2 of
             Inl err \<Rightarrow> Inl err
           | Inr False \<Rightarrow> Inr False
           | Inr True \<Rightarrow> axis_test (zc e) (edge e) z1 z2))"

definition test_at :: "octant list \<Rightarrow> int \<Rightarrow> octant \<Rightarrow> error + bool" where
  "test_at elems i oct =
     (case elem_at elems i of
        Inl err \<Rightarrow> Inl err
      | Inr e \<Rightarrow> contains_test e (xc oct) (yc oct) (zc oct)
                  (xc oct + edge oct) (yc oct + edge oct) (zc oct + edge oct))"

text \<open>The two tests after the loop: \<^verbatim>\<open>elems[mid]\<close>, then \<^verbatim>\<open>elems[low]\<close>, then NULL. The
  pointer that is returned is modelled by its index.\<close>

definition findEnclosing_final :: "octant list \<Rightarrow> octant \<Rightarrow> int \<Rightarrow> int \<Rightarrow> error + nat option" where
  "findEnclosing_final elems oct low mid =
     (case test_at elems mid oct of
        Inl err \<Rightarrow> Inl err
      | Inr True \<Rightarrow> Inr (Some (nat mid))
      | Inr False \<Rightarrow>
          (case test_at elems low oct of
             Inl err \<Rightarrow> Inl err
           | Inr True \<Rightarrow> Inr (Some (nat low))
           | Inr False \<Rightarrow> Inr None))"

text \<open>The loop \<^verbatim>\<open>while (high != mid)\<close>. Nothing in the source bounds its iterations,
  so not returning is the value \<open>None\<close>.\<close>

partial_function (option) findEnclosing_loop ::
  "octant list \<Rightarrow> octant \<Rightarrow> int \<Rightarrow> int \<Rightarrow> int \<Rightarrow> (error + nat option) option" where
  "findEnclosing_loop elems oct low high mid =
     (if high = mid then Some (findEnclosing_final elems oct low mid)
      else case test_at elems mid oct of
        Inl err \<Rightarrow> Some (Inl err)
      | Inr found \<Rightarrow>
          (if found then Some (Inr (Some (nat mid)))
           else if compare oct (elems ! nat mid) < 0
           then findEnclosing_loop elems oct low (mid - 1) ((mid - 1) - tdiv2 ((mid - 1) - low))
           else findEnclosing_loop elems oct (mid + 1) high (high - tdiv2 (high - (mid + 1)))))"

definition findEnclosing :: "octant list \<Rightarrow> octant \<Rightarrow> (error + nat option) option" where
  "findEnclosing elems oct =
     (if \<not> shift_ok (TMR_MAX_LEVEL - level oct) then Some (Inl UndefinedArith)
      else if \<not> (int32 (xc oct + edge oct) \<and> int32 (yc oct + edge oct) \<and> int32 (zc oct + edge oct))
      then Some (Inl UndefinedArith)
      else let low = 0; high = int (length elems) - 1
           in findEnclosing_loop elems oct low high (low + tdiv2 (high - low)))"

declare findEnclosing_loop.simps [code]

subsection \<open>findEnclosingRange\<close>

text \<open>The member \<^verbatim>\<open>num_elements\<close> is read here and set nowhere in the source; it is a
  parameter of the model. A pointer returned by findEnclosing is an index into the
  element array, and \<^verbatim>\<open>elow->tag\<close> reads the element there.\<close>

definition findEnclosingRange ::
  "octant list \<Rightarrow> int \<Rightarrow> octant \<Rightarrow> (error + int \<times> int) option" where
  "findEnclosingRange elems num_elements oct =
     (if \<not> shift_ok (TMR_MAX_LEVEL - level oct) then Some (Inl UndefinedArith)
      else let h = edge oct; p = oct\<lparr>level := TMR_MAX_LEVEL\<rparr>
           in case findEnclosing elems p of
                None \<Rightarrow> None
              | Some (Inl err) \<Rightarrow> Some (Inl err)
              | Some (Inr elow) \<Rightarrow>
                  (let low = (case elow of None \<Rightarrow> 0 | Some i \<Rightarrow> tag (elems ! i))
                   in if \<not> (int32 (xc p + (h - 1)) \<and> int32 (yc p + (h - 1)) \<and> int32 (zc p + (h - 1)))
                      then Some (Inl UndefinedArith)
                      else case findEnclosing elems
                                  (p\<lparr>xc := xc p + (h - 1), yc := yc p + (h - 1), zc := zc p + (h - 1)\<rparr>) of
                             None \<Rightarrow> None
                           | Some (Inl err) \<Rightarrow> Some (Inl err)
                           | Some (Inr ehigh) \<Rightarrow>
                               Some (Inr (low, case ehigh of None \<Rightarrow> num_elements
                                               | Some i \<Rightarrow> tag (elems ! i) + 1))))"

subsection \<open>The level-uniform constructor\<close>

text \<open>The bounds check at the head of \<^verbatim>\<open>TMROctree(int refine_level)\<close>.\<close>

definition clamp_level :: "int \<Rightarrow> int" where
  "clamp_level refine_level =
     (if refine_level < 0 then 0
      else if refine_level - 1 > TMR_MAX_LEVEL then TMR_MAX_LEVEL - 1
      else refine_level)"

text \<open>The loop \<^verbatim>\<open>for (v = 0; v < hmax; v += h)\<close> with \<^verbatim>\<open>h = 1 << n\<close>: the values v
  takes, in order. The constructor reaches it with a shift count in \<open>[0, 31)\<close> only (the
  clamped level is never negative), where h is \<open>2^n\<close>.\<close>

function grid_loop :: "int \<Rightarrow> int \<Rightarrow> int list" where
  "grid_loop v n = (if v < hmax then v # grid_loop (v + 2 ^ nat n) n else [])"
  by pat_completeness auto
termination
  by (relation "measure (\<lambda>(v, n). nat (hmax - v))") auto

text \<open>The three nested loops, z outermost and x innermost, writing one octant per
  step. The constructor writes x, y, z and level only; the model holds 0 in the tag.\<close>

definition uniform_octants :: "int \<Rightarrow> int \<Rightarrow> octant list" where
  "uniform_octants n refine_level =
     concat (map (\<lambda>zv. concat (map (\<lambda>yv. map (\<lambda>xv.
        \<lparr>xc = xv, yc = yv, zc = zv, level = refine_level, tag = 0\<rparr>)
        (grid_loop 0 n)) (grid_loop 0 n))) (grid_loop 0 n))"

text \<open>The constructor. The shifts and the product \<^verbatim>\<open>nx*nx*nx\<close> are int arithmetic and
  must be defined; the array has \<open>nocts\<close> entries and a write beyond them is an error.\<close>

definition TMROctree_uniform :: "int \<Rightarrow> error + octree" where
  "TMROctree_uniform refine_level0 =
     (let refine_level = clamp_level refine_level0
      in if shift_ok (TMR_MAX_LEVEL - refine_level) \<and> shift_ok refine_level
         then let nx = shl1 refine_level
              in if int32 (nx * nx) \<and> int32 (nx * nx * nx)
                 then let nocts = nx * nx * nx;
                          array = uniform_octants (TMR_MAX_LEVEL - refine_level) refine_level
                      in if int (length array) > nocts then Inl (IndexOutOfRange nocts)
                         else Inr \<lparr>elements = sort_array array, nodes = None, order = 2\<rparr>
                 else Inl UndefinedArith
         else Inl UndefinedArith)"


subsection \<open>The constructor from an array\<close>


subsection \<open>refine\<close>





subsection \<open>coarsen\<close>



subsection \<open>createNodes\<close>

text \<open>The candidate nodes of one element, kk outermost and ii innermost, for the
  clamped order. The shift that gives the step and the sums that give the coordinates
  are int arithmetic and must be defined.\<close>

definition node_at :: "octant \<Rightarrow> int \<Rightarrow> int \<Rightarrow> int \<Rightarrow> int \<Rightarrow> octant" where
  "node_at a h ii jj kk =
     \<lparr>xc = xc a + ii * h, yc = yc a + jj * h, zc = zc a + kk * h, level = 0, tag = 1\<rparr>"

definition element_nodes :: "int \<Rightarrow> octant \<Rightarrow> error + octant list" where
  "element_nodes ord a =
     (if ord = 2 then
        (if shift_ok (TMR_MAX_LEVEL - level a)
         then Inr (concat (map (\<lambda>kk. concat (map (\<lambda>jj. map (\<lambda>ii.
                node_at a (shl1 (TMR_MAX_LEVEL - level a)) ii jj kk) [0 .. 1]) [0 .. 1])) [0 .. 1]))
         else Inl UndefinedArith)
      else if ord = 3 then
        (if shift_ok (TMR_MAX_LEVEL - level a - 1)
         then Inr (concat (map (\<lambda>kk. concat (map (\<lambda>jj. map (\<lambda>ii.
                node_at a (shl1 (TMR_MAX_LEVEL - level a - 1)) ii jj kk) [0 .. 2]) [0 .. 2])) [0 .. 2]))
         else Inl UndefinedArith)
      else Inr [])"

text \<open>The loop over the elements, filling \<^verbatim>\<open>all_nodes\<close>.\<close>

fun all_element_nodes :: "int \<Rightarrow> octant list \<Rightarrow> error + octant list" where
  "all_element_nodes ord [] = Inr []"
| "all_element_nodes ord (a # rest) =
     (case element_nodes ord a of
        Inl err \<Rightarrow> Inl err
      | Inr ns \<Rightarrow>
          (case all_element_nodes ord rest of
             Inl err \<Rightarrow> Inl err
           | Inr ms \<Rightarrow> Inr (ns @ ms)))"

definition clamp_order :: "int \<Rightarrow> int" where
  "clamp_order ord0 = (let ord1 = (if ord0 < 2 then 2 else ord0) in if ord1 > 3 then 3 else ord1)"

definition coords_int32 :: "octant \<Rightarrow> bool" where
  "coords_int32 q \<longleftrightarrow> int32 (xc q) \<and> int32 (yc q) \<and> int32 (zc q)"

definition createNodes :: "octree \<Rightarrow> int \<Rightarrow> error + octree" where
  "createNodes tree ord0 =
     (case all_element_nodes (clamp_order ord0) (elements tree) of
        Inl err \<Rightarrow> Inl err
      | Inr all_nodes \<Rightarrow>
          if list_all coords_int32 all_nodes
          then Inr (tree\<lparr>nodes := Some (sort_array all_nodes), order := clamp_order ord0\<rparr>)
          else Inl UndefinedArith)"

section \<open>Predicates of the specification\<close>

text \<open>The octant invariants of the data model: the level within \<open>[0, LMAX]\<close>, the
  coordinates multiples of the octant's own edge length, and the cube inside the
  domain \<open>[0, HMAX)\<^sup>3\<close>.\<close>

definition valid :: "octant \<Rightarrow> bool" where
  "valid q \<longleftrightarrow>
     0 \<le> level q \<and> level q \<le> TMR_MAX_LEVEL \<and>
     0 \<le> xc q \<and> xc q + hlen q \<le> hmax \<and> hlen q dvd xc q \<and>
     0 \<le> yc q \<and> yc q + hlen q \<le> hmax \<and> hlen q dvd yc q \<and>
     0 \<le> zc q \<and> zc q + hlen q \<le> hmax \<and> hlen q dvd zc q"

text \<open>The cube of e contains the cube of q.\<close>

definition contains :: "octant \<Rightarrow> octant \<Rightarrow> bool" where
  "contains e q \<longleftrightarrow>
     xc e \<le> xc q \<and> xc q + hlen q \<le> xc e + hlen e \<and>
     yc e \<le> yc q \<and> yc q + hlen q \<le> yc e + hlen e \<and>
     zc e \<le> zc q \<and> zc q + hlen q \<le> zc e + hlen e"

text \<open>The containment test of findEnclosing between two octants, with the edges as the
  source computes them. For octants of non-negative level it is \<open>contains\<close>.\<close>

definition encloses :: "octant \<Rightarrow> octant \<Rightarrow> bool" where
  "encloses e q \<longleftrightarrow>
     xc e \<le> xc q \<and> xc q + edge q \<le> xc e + edge e \<and>
     yc e \<le> yc q \<and> yc q + edge q \<le> yc e + edge e \<and>
     zc e \<le> zc q \<and> zc q + edge q \<le> zc e + edge e"

text \<open>The half-open cubes of a and b intersect.\<close>

definition overlap :: "octant \<Rightarrow> octant \<Rightarrow> bool" where
  "overlap a b \<longleftrightarrow>
     xc a < xc b + hlen b \<and> xc b < xc a + hlen a \<and>
     yc a < yc b + hlen b \<and> yc b < yc a + hlen a \<and>
     zc a < zc b + hlen b \<and> zc b < zc a + hlen a"

text \<open>An element array in strict Morton order (sorted and duplicate-free).\<close>

definition morton_sorted :: "octant list \<Rightarrow> bool" where
  "morton_sorted qs \<longleftrightarrow> sorted_wrt (\<lambda>a b. compare a b < 0) qs"

text \<open>No two cubes of the array intersect.\<close>

definition disjoint_cubes :: "octant list \<Rightarrow> bool" where
  "disjoint_cubes qs \<longleftrightarrow> sorted_wrt (\<lambda>a b. \<not> overlap a b) qs"

text \<open>What an octant is apart from its tag.\<close>

definition coords :: "octant \<Rightarrow> int \<times> int \<times> int \<times> int" where
  "coords q = (xc q, yc q, zc q, level q)"

text \<open>Auxiliary notions of the proofs: coordinates within the non-negative 31-bit
  range, the origin of q inside the cube of e, and the exponent of an octant's edge
  length.\<close>

definition inb :: "octant \<Rightarrow> bool" where
  "inb q \<longleftrightarrow> 0 \<le> xc q \<and> xc q < 2 ^ 31 \<and> 0 \<le> yc q \<and> yc q < 2 ^ 31 \<and> 0 \<le> zc q \<and> zc q < 2 ^ 31"

definition origin_in :: "octant \<Rightarrow> octant \<Rightarrow> bool" where
  "origin_in e q \<longleftrightarrow>
     xc e \<le> xc q \<and> xc q < xc e + hlen e \<and> yc e \<le> yc q \<and> yc q < yc e + hlen e \<and>
     zc e \<le> zc q \<and> zc q < zc e + hlen e"

definition kk :: "octant \<Rightarrow> nat" where
  "kk q = nat (TMR_MAX_LEVEL - level q)"

text \<open>The closed cubes of a and b meet: the two octants share a face, an edge or a
  corner, or intersect.\<close>

definition touching :: "octant \<Rightarrow> octant \<Rightarrow> bool" where
  "touching a b \<longleftrightarrow>
     xc a \<le> xc b + hlen b \<and> xc b \<le> xc a + hlen a \<and>
     yc a \<le> yc b + hlen b \<and> yc b \<le> yc a + hlen a \<and>
     zc a \<le> zc b + hlen b \<and> zc b \<le> zc a + hlen a"

text \<open>2:1 balance: the levels of any two touching elements differ by at most one.\<close>

definition balanced :: "octant list \<Rightarrow> bool" where
  "balanced qs \<longleftrightarrow> (\<forall>a \<in> set qs. \<forall>b \<in> set qs. touching a b \<longrightarrow> \<bar>level a - level b\<bar> \<le> 1)"

text \<open>The cubes cover the domain: every unit cube of \<open>[0, HMAX)\<^sup>3\<close>, that is every
  valid octant of level LMAX, lies in the cube of some element.\<close>

definition covers :: "octant list \<Rightarrow> bool" where
  "covers qs \<longleftrightarrow> (\<forall>p. valid p \<and> level p = TMR_MAX_LEVEL \<longrightarrow> (\<exists>e \<in> set qs. contains e p))"

text \<open>The cubes of the array partition the domain.\<close>

definition partitions_domain :: "octant list \<Rightarrow> bool" where
  "partitions_domain qs \<longleftrightarrow> (\<forall>e \<in> set qs. valid e) \<and> disjoint_cubes qs \<and> covers qs"

text \<open>The first and the last descendant of an octant at level LMAX, as
  findEnclosingRange computes them: the unit cubes at the lowest and at the highest
  corner of the octant.\<close>

definition first_desc :: "octant \<Rightarrow> octant" where
  "first_desc q = q\<lparr>level := TMR_MAX_LEVEL\<rparr>"

definition last_desc :: "octant \<Rightarrow> octant" where
  "last_desc q =
     q\<lparr>level := TMR_MAX_LEVEL, xc := xc q + (hlen q - 1), yc := yc q + (hlen q - 1),
       zc := zc q + (hlen q - 1)\<rparr>"



text \<open>The candidate nodes of an element as the specification words them: for the order
  c the \<open>c\<^sup>3\<close> tensor-product positions at the step \<open>h / (c - 1)\<close>, that is h for order 2 and
  h/2 for order 3, each with level 0 and tag 1.\<close>

definition spec_nodes :: "int \<Rightarrow> octant \<Rightarrow> octant list" where
  "spec_nodes c a =
     concat (map (\<lambda>k. concat (map (\<lambda>j. map (\<lambda>i.
       \<lparr>xc = xc a + i * (hlen a div (c - 1)), yc = yc a + j * (hlen a div (c - 1)),
        zc = zc a + k * (hlen a div (c - 1)), level = 0, tag = 1\<rparr>)
       [0 .. c - 1]) [0 .. c - 1])) [0 .. c - 1])"

subsection \<open>Two small trees\<close>

text \<open>The root octant, and the eight octants of level 1 in Morton order (the element
  array of \<^verbatim>\<open>TMROctree(1)\<close>); \<open>536870912 = 2^29\<close> is their edge length.\<close>

definition root_octant :: octant where
  "root_octant = \<lparr>xc = 0, yc = 0, zc = 0, level = 0, tag = 0\<rparr>"

definition level1_tree :: "octant list" where
  "level1_tree =
     [\<lparr>xc = 0, yc = 0, zc = 0, level = 1, tag = 0\<rparr>,
      \<lparr>xc = 536870912, yc = 0, zc = 0, level = 1, tag = 1\<rparr>,
      \<lparr>xc = 0, yc = 536870912, zc = 0, level = 1, tag = 2\<rparr>,
      \<lparr>xc = 536870912, yc = 536870912, zc = 0, level = 1, tag = 3\<rparr>,
      \<lparr>xc = 0, yc = 0, zc = 536870912, level = 1, tag = 4\<rparr>,
      \<lparr>xc = 536870912, yc = 0, zc = 536870912, level = 1, tag = 5\<rparr>,
      \<lparr>xc = 0, yc = 536870912, zc = 536870912, level = 1, tag = 6\<rparr>,
      \<lparr>xc = 536870912, yc = 536870912, zc = 536870912, level = 1, tag = 7\<rparr>]"



text \<open>A tree of one unit cube, the deepest octant at the origin.\<close>

definition unit_tree :: octree where
  "unit_tree = \<lparr>elements = [\<lparr>xc = 0, yc = 0, zc = 0, level = 30, tag = 0\<rparr>], nodes = None, order = 2\<rparr>"



section \<open>Morton keys and cubes\<close>

subsection \<open>Bit interleaving\<close>

lemma interleave_lt: "interleave k a b c < 8 ^ k"
proof (induction k arbitrary: a b c)
  case 0 show ?case by simp
next
  case (Suc k)
  have "interleave k (a div 2) (b div 2) (c div 2) < 8 ^ k" by (rule Suc.IH)
  then have "8 * interleave k (a div 2) (b div 2) (c div 2) + 8 \<le> 8 * 8 ^ k" by simp
  moreover have "a mod 2 + 2 * (b mod 2) + 4 * (c mod 2) < 8"
    by (simp add: mod2_eq_if)
  ultimately show ?case by simp
qed

lemma interleave_add:
  "interleave (k + m) a b c =
     interleave k a b c + 8 ^ k * interleave m (a div 2 ^ k) (b div 2 ^ k) (c div 2 ^ k)"
proof (induction k arbitrary: a b c)
  case 0 show ?case by simp
next
  case (Suc k)
  show ?case
    by (simp add: Suc.IH [of "a div 2" "b div 2" "c div 2"] div_mult2_eq algebra_simps)
qed

lemma interleave_mod: "interleave k (a mod 2 ^ k) (b mod 2 ^ k) (c mod 2 ^ k) = interleave k a b c"
proof (induction k arbitrary: a b c)
  case 0 show ?case by simp
next
  case (Suc k)
  have d: "\<And>v::nat. (v mod (2 * 2 ^ k)) div 2 = (v div 2) mod 2 ^ k"
    by (metis div_exp_mod_exp_eq power_Suc power_one_right add.commute plus_1_eq_Suc)
  have m: "\<And>v::nat. (v mod (2 * 2 ^ k)) mod 2 = v mod 2"
    by (simp add: mod_mod_cancel)
  show ?case by (simp add: d m Suc.IH)
qed

lemma interleave_inj:
  "a < 2 ^ n \<Longrightarrow> b < 2 ^ n \<Longrightarrow> c < 2 ^ n \<Longrightarrow> a' < 2 ^ n \<Longrightarrow> b' < 2 ^ n \<Longrightarrow> c' < 2 ^ n \<Longrightarrow>
   interleave n a b c = interleave n a' b' c' \<Longrightarrow> a = a' \<and> b = b' \<and> c = c'"
proof (induction n arbitrary: a b c a' b' c')
  case 0 then show ?case by simp
next
  case (Suc n)
  let ?l = "\<lambda>a b c::nat. a mod 2 + 2 * (b mod 2) + 4 * (c mod 2)"
  have l8: "\<And>a b c. ?l a b c < 8" by (simp add: mod2_eq_if)
  from Suc.prems(7) have e: "?l a b c + 8 * interleave n (a div 2) (b div 2) (c div 2)
     = ?l a' b' c' + 8 * interleave n (a' div 2) (b' div 2) (c' div 2)" by simp
  have "(?l a b c + 8 * interleave n (a div 2) (b div 2) (c div 2)) mod 8 = ?l a b c"
    using l8[of a b c] by simp
  moreover have "(?l a' b' c' + 8 * interleave n (a' div 2) (b' div 2) (c' div 2)) mod 8 = ?l a' b' c'"
    using l8[of a' b' c'] by simp
  ultimately have low: "?l a b c = ?l a' b' c'" using e by metis
  with e have hi: "interleave n (a div 2) (b div 2) (c div 2) = interleave n (a' div 2) (b' div 2) (c' div 2)"
    by simp
  have "a div 2 = a' div 2 \<and> b div 2 = b' div 2 \<and> c div 2 = c' div 2"
    using Suc.prems(1-6) by (intro Suc.IH [OF _ _ _ _ _ _ hi]) auto
  moreover from low have "a mod 2 = a' mod 2 \<and> b mod 2 = b' mod 2 \<and> c mod 2 = c' mod 2"
    by (simp add: mod2_eq_if split: if_splits)
  ultimately show ?case by (metis div_mult_mod_eq)
qed

lemma interleave_zero: "interleave k 0 0 0 = 0"
  by (induction k) auto

lemma interleave_dvd:
  assumes "2 ^ k dvd a" "2 ^ k dvd b" "2 ^ k dvd c"
  shows "interleave k a b c = 0"
proof -
  have "interleave k (a mod 2 ^ k) (b mod 2 ^ k) (c mod 2 ^ k) = 0"
    using assms by (simp add: interleave_zero)
  then show ?thesis by (simp add: interleave_mod)
qed

lemma div_eq_iff_range:
  fixes a ea :: nat
  assumes "2 ^ k dvd ea"
  shows "a div 2 ^ k = ea div 2 ^ k \<longleftrightarrow> ea \<le> a \<and> a < ea + 2 ^ k"
proof -
  from assms obtain A where ea: "ea = 2 ^ k * A" by (auto simp: dvd_def)
  have "a div 2 ^ k = A \<longleftrightarrow> 2 ^ k * A \<le> a \<and> a < 2 ^ k * A + 2 ^ k"
  proof
    assume "a div 2 ^ k = A"
    then have "a = 2 ^ k * A + a mod 2 ^ k" by (metis mult_div_mod_eq)
    moreover have "a mod 2 ^ k < (2::nat) ^ k" by simp
    ultimately show "2 ^ k * A \<le> a \<and> a < 2 ^ k * A + 2 ^ k" by linarith
  next
    assume h: "2 ^ k * A \<le> a \<and> a < 2 ^ k * A + 2 ^ k"
    then have "A \<le> a div 2 ^ k" by (metis div_le_mono nonzero_mult_div_cancel_left power_eq_0_iff zero_neq_numeral)
    moreover from h have "a < 2 ^ k * (A + 1)" by simp
    then have "a div 2 ^ k < A + 1" by (simp add: less_mult_imp_div_less mult.commute)
    ultimately show "a div 2 ^ k = A" by simp
  qed
  then show ?thesis by (simp add: ea)
qed

lemma interleave_cube:
  assumes d: "2 ^ k dvd ea" "2 ^ k dvd eb" "2 ^ k dvd ec"
    and kn: "k \<le> n"
    and b: "a < 2 ^ n" "b < 2 ^ n" "c < 2 ^ n" "ea < 2 ^ n" "eb < 2 ^ n" "ec < 2 ^ n"
  shows "(ea \<le> a \<and> a < ea + 2 ^ k) \<and> (eb \<le> b \<and> b < eb + 2 ^ k) \<and> (ec \<le> c \<and> c < ec + 2 ^ k)
     \<longleftrightarrow> interleave n ea eb ec \<le> interleave n a b c \<and> interleave n a b c < interleave n ea eb ec + 8 ^ k"
proof -
  obtain m where n: "n = k + m" using kn by (metis le_Suc_ex)
  let ?H = "\<lambda>a b c. interleave m (a div 2 ^ k) (b div 2 ^ k) (c div 2 ^ k)"
  have ke: "interleave n ea eb ec = 8 ^ k * ?H ea eb ec"
    unfolding n by (simp add: interleave_add interleave_dvd d)
  have ko: "interleave n a b c = interleave k a b c + 8 ^ k * ?H a b c"
    unfolding n by (simp add: interleave_add)
  have lt: "interleave k a b c < 8 ^ k" by (rule interleave_lt)
  have dl: "\<And>v::nat. v < 2 ^ n \<Longrightarrow> v div 2 ^ k < 2 ^ m"
    unfolding n by (simp add: less_mult_imp_div_less power_add mult.commute)
  have "?H a b c = ?H ea eb ec \<longleftrightarrow>
      a div 2 ^ k = ea div 2 ^ k \<and> b div 2 ^ k = eb div 2 ^ k \<and> c div 2 ^ k = ec div 2 ^ k"
    using interleave_inj [of "a div 2 ^ k" m "b div 2 ^ k" "c div 2 ^ k" "ea div 2 ^ k" "eb div 2 ^ k" "ec div 2 ^ k"]
      dl b by auto
  moreover have "?H a b c = ?H ea eb ec \<longleftrightarrow>
     8 ^ k * ?H ea eb ec \<le> interleave k a b c + 8 ^ k * ?H a b c
     \<and> interleave k a b c + 8 ^ k * ?H a b c < 8 ^ k * ?H ea eb ec + 8 ^ k"
  proof
    assume "?H a b c = ?H ea eb ec" then show "8 ^ k * ?H ea eb ec \<le> interleave k a b c + 8 ^ k * ?H a b c
     \<and> interleave k a b c + 8 ^ k * ?H a b c < 8 ^ k * ?H ea eb ec + 8 ^ k" using lt by simp
  next
    assume h: "8 ^ k * ?H ea eb ec \<le> interleave k a b c + 8 ^ k * ?H a b c
     \<and> interleave k a b c + 8 ^ k * ?H a b c < 8 ^ k * ?H ea eb ec + 8 ^ k"
    have "8 ^ k * ?H ea eb ec < 8 ^ k * (?H a b c + 1)" using h lt by simp
    then have 1: "?H ea eb ec < ?H a b c + 1" by (simp only: mult_less_cancel1)
    have "8 ^ k * ?H a b c < 8 ^ k * (?H ea eb ec + 1)" using h by simp
    then have 2: "?H a b c < ?H ea eb ec + 1" by (simp only: mult_less_cancel1)
    from 1 2 show "?H a b c = ?H ea eb ec" by simp
  qed
  ultimately show ?thesis
    by (simp add: ke ko div_eq_iff_range d)
qed

lemma interleave_mono:
  "a \<le> a' \<Longrightarrow> b \<le> b' \<Longrightarrow> c \<le> c' \<Longrightarrow> a' < 2 ^ n \<Longrightarrow> b' < 2 ^ n \<Longrightarrow> c' < 2 ^ n \<Longrightarrow>
   interleave n a b c \<le> interleave n a' b' c'"
proof (induction n arbitrary: a b c a' b' c')
  case 0 show ?case by simp
next
  case (Suc n)
  let ?I = "interleave n (a div 2) (b div 2) (c div 2)"
  let ?I' = "interleave n (a' div 2) (b' div 2) (c' div 2)"
  let ?l = "\<lambda>a b c::nat. a mod 2 + 2 * (b mod 2) + 4 * (c mod 2)"
  have l8: "\<And>a b c. ?l a b c < 8" by (simp add: mod2_eq_if)
  have d: "a div 2 \<le> a' div 2" "b div 2 \<le> b' div 2" "c div 2 \<le> c' div 2"
    using Suc.prems by (simp_all add: div_le_mono)
  have bd: "a' div 2 < 2 ^ n" "b' div 2 < 2 ^ n" "c' div 2 < 2 ^ n"
    using Suc.prems by auto
  have le: "?I \<le> ?I'" using d bd by (intro Suc.IH)
  show ?case
  proof (cases "?I = ?I'")
    case False
    with le have "?I + 1 \<le> ?I'" by simp
    then have "8 * ?I + 8 \<le> 8 * ?I'" by simp
    then show ?thesis using l8 [of a b c] by simp
  next
    case True
    have bd2: "a div 2 < 2 ^ n" "b div 2 < 2 ^ n" "c div 2 < 2 ^ n"
      using d bd by auto
    have e: "a div 2 = a' div 2 \<and> b div 2 = b' div 2 \<and> c div 2 = c' div 2"
      using bd bd2 by (intro interleave_inj [OF _ _ _ _ _ _ True])
    have m: "\<And>u v::nat. u \<le> v \<Longrightarrow> u div 2 = v div 2 \<Longrightarrow> u mod 2 \<le> v mod 2"
      by (metis add_le_cancel_left mult_div_mod_eq)
    have "?l a b c \<le> ?l a' b' c'"
      using m [of a a'] m [of b b'] m [of c c'] e Suc.prems(1-3) by simp
    then show ?thesis using True by simp
  qed
qed

subsection \<open>Valid octants and their keys\<close>

lemma compare_less: "compare a b < 0 \<longleftrightarrow> okey a < okey b"
  by (auto simp: compare_def)

lemma compare_eq0: "compare a b = 0 \<longleftrightarrow> okey a = okey b"
  by (auto simp: compare_def)

lemma hlen_pow: "0 \<le> level q \<Longrightarrow> level q \<le> TMR_MAX_LEVEL \<Longrightarrow> hlen q = 2 ^ nat (TMR_MAX_LEVEL - level q)"
  by (simp add: hlen_def)

lemma hlen_pos: "0 < hlen q"
  by (simp add: hlen_def)

lemma edge_hlen: "0 \<le> level q \<Longrightarrow> edge q = hlen q"
  by (simp add: edge_def shl1_def hlen_def TMR_MAX_LEVEL_def)

lemma valid_edge: "valid q \<Longrightarrow> edge q = hlen q"
  by (simp add: edge_hlen valid_def)

lemma encloses_contains: "0 \<le> level e \<Longrightarrow> 0 \<le> level q \<Longrightarrow> encloses e q = contains e q"
  by (simp add: encloses_def contains_def edge_hlen)

lemma valid_bounds:
  assumes "valid q"
  shows "0 \<le> xc q \<and> xc q < hmax \<and> 0 \<le> yc q \<and> yc q < hmax \<and> 0 \<le> zc q \<and> zc q < hmax"
  using assms hlen_pos [of q] by (auto simp: valid_def)

lemma hmax_val: "hmax = 2 ^ 30"
  by (simp add: hmax_def TMR_MAX_LEVEL_def)

lemma mkey_nat:
  assumes "0 \<le> xc q" "xc q < 2 ^ 32" "0 \<le> yc q" "yc q < 2 ^ 32" "0 \<le> zc q" "zc q < 2 ^ 32"
  shows "mkey q = interleave 32 (nat (xc q)) (nat (yc q)) (nat (zc q))"
  using assms by (simp add: mkey_def)

lemma valid_inb: "valid q \<Longrightarrow> inb q"
  using valid_bounds [of q] by (auto simp: inb_def hmax_val)

lemma key_cube:
  assumes e: "valid e" and q: "inb q"
  shows "origin_in e q \<longleftrightarrow> mkey e \<le> mkey q \<and> mkey q < mkey e + 8 ^ kk e"
proof -
  let ?k = "kk e"
  have h: "hlen e = 2 ^ ?k" using e by (simp add: hlen_pow valid_def kk_def)
  have k32: "?k \<le> 32" using e by (auto simp: valid_def TMR_MAX_LEVEL_def kk_def)
  have eb: "inb e" using e by (rule valid_inb)
  have nd: "\<And>v::int. 0 \<le> v \<Longrightarrow> 2 ^ ?k dvd v \<Longrightarrow> (2::nat) ^ ?k dvd nat v"
    by (metis int_dvd_int_iff int_nat_eq of_nat_numeral of_nat_power)
  have d: "2 ^ ?k dvd nat (xc e)" "2 ^ ?k dvd nat (yc e)" "2 ^ ?k dvd nat (zc e)"
    using e h by (auto simp: valid_def intro!: nd)
  have lt: "\<And>v::int. 0 \<le> v \<Longrightarrow> v < 2 ^ 31 \<Longrightarrow> nat v < 2 ^ 32"
    by (simp add: nat_less_iff)
  have ke: "mkey e = interleave 32 (nat (xc e)) (nat (yc e)) (nat (zc e))"
    using eb by (intro mkey_nat) (auto simp: inb_def)
  have kq: "mkey q = interleave 32 (nat (xc q)) (nat (yc q)) (nat (zc q))"
    using q by (intro mkey_nat) (auto simp: inb_def)
  have ax: "\<And>u v::int. 0 \<le> u \<Longrightarrow> 0 \<le> v \<Longrightarrow>
      (u \<le> v \<and> v < u + 2 ^ ?k) = (nat u \<le> nat v \<and> nat v < nat u + 2 ^ ?k)"
    by (auto simp: nat_less_iff nat_le_iff le_nat_iff)
  have "origin_in e q \<longleftrightarrow>
     (nat (xc e) \<le> nat (xc q) \<and> nat (xc q) < nat (xc e) + 2 ^ ?k) \<and>
     (nat (yc e) \<le> nat (yc q) \<and> nat (yc q) < nat (yc e) + 2 ^ ?k) \<and>
     (nat (zc e) \<le> nat (zc q) \<and> nat (zc q) < nat (zc e) + 2 ^ ?k)"
    unfolding origin_in_def h using eb q
    by (simp add: inb_def ax [symmetric])
  also have "\<dots> \<longleftrightarrow> mkey e \<le> mkey q \<and> mkey q < mkey e + 8 ^ ?k"
    unfolding ke kq using eb q
    by (intro interleave_cube d k32 lt) (auto simp: inb_def)
  finally show ?thesis .
qed

lemma mkey_inj:
  assumes "inb a" "inb b" "mkey a = mkey b"
  shows "xc a = xc b \<and> yc a = yc b \<and> zc a = zc b"
proof -
  have lt: "\<And>v::int. 0 \<le> v \<Longrightarrow> v < 2 ^ 31 \<Longrightarrow> nat v < 2 ^ 32"
    by (simp add: nat_less_iff)
  have "interleave 32 (nat (xc a)) (nat (yc a)) (nat (zc a)) = interleave 32 (nat (xc b)) (nat (yc b)) (nat (zc b))"
    using assms by (simp add: mkey_nat inb_def)
  then have "nat (xc a) = nat (xc b) \<and> nat (yc a) = nat (yc b) \<and> nat (zc a) = nat (zc b)"
    using assms(1,2) by (intro interleave_inj [of _ 32]) (auto simp: inb_def intro!: lt)
  then show ?thesis using assms(1,2) by (auto simp: inb_def)
qed

lemma mkey_mono:
  assumes "inb a" "inb b" "xc a \<le> xc b" "yc a \<le> yc b" "zc a \<le> zc b"
  shows "mkey a \<le> mkey b"
proof -
  have lt: "\<And>v::int. 0 \<le> v \<Longrightarrow> v < 2 ^ 31 \<Longrightarrow> nat v < 2 ^ 32"
    by (simp add: nat_less_iff)
  have "interleave 32 (nat (xc a)) (nat (yc a)) (nat (zc a)) \<le> interleave 32 (nat (xc b)) (nat (yc b)) (nat (zc b))"
    using assms by (intro interleave_mono lt) (auto simp: inb_def)
  then show ?thesis using assms by (simp add: mkey_nat inb_def)
qed

text \<open>multiples on a line\<close>
lemma mult_gap:
  fixes u v d :: int
  assumes "d dvd u" "d dvd v" "u < v + d" "0 < d"
  shows "u \<le> v"
proof -
  from assms obtain a b where "u = d * a" "v = d * b" by (auto simp: dvd_def)
  with assms have "d * a < d * (b + 1)" by (simp add: algebra_simps)
  then have "a < b + 1" using assms(4) by (simp add: mult_less_cancel_left_pos)
  then show ?thesis using \<open>u = d * a\<close> \<open>v = d * b\<close> assms(4) by (simp add: mult_left_mono)
qed

lemma hlen_dvd_mono:
  assumes "valid a" "valid b" "level a \<le> level b"
  shows "hlen b dvd hlen a"
proof -
  have "hlen a = 2 ^ kk a" "hlen b = 2 ^ kk b" using assms by (auto simp: hlen_pow valid_def kk_def)
  moreover have "kk b \<le> kk a" using assms by (simp add: kk_def)
  ultimately show ?thesis by (simp add: le_imp_power_dvd)
qed

lemma nested:
  assumes a: "valid a" and b: "valid b" and o: "overlap a b" and l: "level a \<le> level b"
  shows "contains a b"
proof -
  have d: "hlen b dvd hlen a" using a b l by (rule hlen_dvd_mono)
  have p: "0 < hlen b" by (rule hlen_pos)
  have ax: "\<And>u v::int. hlen a dvd u \<Longrightarrow> hlen b dvd v \<Longrightarrow> u < v + hlen b \<Longrightarrow> v < u + hlen a
      \<Longrightarrow> u \<le> v \<and> v + hlen b \<le> u + hlen a"
  proof -
    fix u v :: int
    assume h: "hlen a dvd u" "hlen b dvd v" "u < v + hlen b" "v < u + hlen a"
    have du: "hlen b dvd u" using d h(1) by (rule dvd_trans)
    have 1: "u \<le> v" using du h(2) h(3) p by (rule mult_gap)
    have "hlen b dvd u + hlen a - hlen b" using du d by simp
    moreover have "v < (u + hlen a - hlen b) + hlen b" using h(4) by simp
    ultimately have "v \<le> u + hlen a - hlen b" using h(2) p mult_gap by blast
    with 1 show "u \<le> v \<and> v + hlen b \<le> u + hlen a" by simp
  qed
  show ?thesis
    using a b o ax [of "xc a" "xc b"] ax [of "yc a" "yc b"] ax [of "zc a" "zc b"]
    by (simp add: valid_def overlap_def contains_def)
qed

lemma contains_overlap: "contains e q \<Longrightarrow> overlap e q"
  using hlen_pos [of q] hlen_pos [of e] by (auto simp: contains_def overlap_def)

lemma contains_origin: "contains e q \<Longrightarrow> origin_in e q"
  using hlen_pos [of q] by (auto simp: contains_def origin_in_def)

lemma overlap_sym: "overlap a b \<Longrightarrow> overlap b a"
  by (auto simp: overlap_def)

lemma origin_overlap: "origin_in e q \<Longrightarrow> overlap e q"
  using hlen_pos [of q] by (auto simp: overlap_def origin_in_def)

subsection \<open>The containment test of findEnclosing\<close>

lemma tdiv2_nonneg: "0 \<le> n \<Longrightarrow> tdiv2 n = n div 2"
  by (simp add: tdiv2_def)

lemma valid_shift_ok: "valid q \<Longrightarrow> shift_ok (TMR_MAX_LEVEL - level q)"
  by (auto simp: valid_def shift_ok_def TMR_MAX_LEVEL_def)

lemma valid_int32:
  assumes "valid q"
  shows "int32 (xc q + hlen q) \<and> int32 (yc q + hlen q) \<and> int32 (zc q + hlen q)"
  using assms hlen_pos [of q] by (auto simp: valid_def int32_def hmax_val)

lemma axis_test_valid: "int32 (ex + h) \<Longrightarrow> axis_test ex h x1 x2 = Inr (ex \<le> x1 \<and> x2 \<le> ex + h)"
  by (simp add: axis_test_def)

lemma contains_test_valid:
  assumes "valid e" "0 \<le> level q"
  shows "contains_test e (xc q) (yc q) (zc q) (xc q + edge q) (yc q + edge q) (zc q + edge q)
     = Inr (contains e q)"
  using valid_int32 [OF assms(1)] valid_shift_ok [OF assms(1)]
  by (auto simp: contains_test_def axis_test_valid contains_def valid_edge [OF assms(1)]
        edge_hlen [OF assms(2)] split: bool.splits)

lemma test_at_valid:
  assumes "i < length T" "valid (T ! i)" "0 \<le> level q"
  shows "test_at T (int i) q = Inr (contains (T ! i) q)"
  using assms by (simp add: test_at_def elem_at_def contains_test_valid)

lemma axis_test_True: "axis_test ex h x1 x2 = Inr True \<Longrightarrow> ex \<le> x1 \<and> x2 \<le> ex + h"
  by (auto simp: axis_test_def split: if_splits)

lemma contains_test_True:
  assumes "contains_test e (xc q) (yc q) (zc q) (xc q + edge q) (yc q + edge q) (zc q + edge q) = Inr True"
  shows "encloses e q"
proof -
  from assms have 1: "axis_test (xc e) (edge e) (xc q) (xc q + edge q) = Inr True"
    and 2: "axis_test (yc e) (edge e) (yc q) (yc q + edge q) = Inr True"
    and 3: "axis_test (zc e) (edge e) (zc q) (zc q + edge q) = Inr True"
    by (auto simp: contains_test_def split: if_splits sum.splits bool.splits)
  show ?thesis
    using axis_test_True [OF 1] axis_test_True [OF 2] axis_test_True [OF 3]
    by (simp add: encloses_def)
qed

lemma test_at_True:
  assumes "test_at T i q = Inr True"
  shows "0 \<le> i \<and> nat i < length T \<and> encloses (T ! nat i) q"
  using assms contains_test_True [of "T ! nat i" q]
  by (auto simp: test_at_def elem_at_def split: if_splits)

lemma final_sound:
  assumes "findEnclosing_final T q low mid = Inr (Some j)"
  shows "j < length T \<and> encloses (T ! j) q"
  using assms test_at_True [of T mid q] test_at_True [of T low q]
  by (auto simp: findEnclosing_final_def split: sum.splits bool.splits)

lemma loop_step_sound:
  assumes IH: "\<And>T q low high mid r. f T q low high mid = Some r \<Longrightarrow>
                 \<forall>j. r = Inr (Some j) \<longrightarrow> j < length T \<and> encloses (T ! j) q"
    and eq: "(if high = mid then Some (findEnclosing_final T q low mid)
      else case test_at T mid q of
        Inl err \<Rightarrow> Some (Inl err)
      | Inr found \<Rightarrow>
          (if found then Some (Inr (Some (nat mid)))
           else if compare q (T ! nat mid) < 0
           then f T q low (mid - 1) ((mid - 1) - tdiv2 ((mid - 1) - low))
           else f T q (mid + 1) high (high - tdiv2 (high - (mid + 1))))) = Some r"
  shows "\<forall>j. r = Inr (Some j) \<longrightarrow> j < length T \<and> encloses (T ! j) q"
proof (cases "high = mid")
  case True
  with eq show ?thesis using final_sound by auto
next
  case False
  show ?thesis
  proof (cases "test_at T mid q")
    case (Inl a) with False eq show ?thesis by auto
  next
    case (Inr b)
    show ?thesis
    proof (cases b)
      case True
      with Inr test_at_True [of T mid q] False eq show ?thesis by auto
    next
      case b: False
      show ?thesis
      proof (cases "compare q (T ! nat mid) < 0")
        case True
        with b Inr False eq have "f T q low (mid - 1) ((mid - 1) - tdiv2 ((mid - 1) - low)) = Some r" by simp
        then show ?thesis by (rule IH)
      next
        case c: False
        with b Inr False eq have "f T q (mid + 1) high (high - tdiv2 (high - (mid + 1))) = Some r" by simp
        then show ?thesis by (rule IH)
      qed
    qed
  qed
qed

lemma loop_sound:
  assumes "findEnclosing_loop T q low high mid = Some r"
  shows "\<forall>j. r = Inr (Some j) \<longrightarrow> j < length T \<and> encloses (T ! j) q"
  by (rule findEnclosing_loop.raw_induct
        [where P = "\<lambda>T q low high mid r. \<forall>j. r = Inr (Some j) \<longrightarrow> j < length T \<and> encloses (T ! j) q",
         OF loop_step_sound assms])

lemma findEnclosing_sound:
  assumes "findEnclosing T q = Some (Inr (Some j))"
  shows "j < length T \<and> encloses (T ! j) q"
proof -
  from assms have "findEnclosing_loop T q 0 (int (length T) - 1) (0 + tdiv2 (int (length T) - 1 - 0)) = Some (Inr (Some j))"
    by (auto simp: findEnclosing_def Let_def split: if_splits)
  then show ?thesis using loop_sound by blast
qed

subsection \<open>The binary search on a sorted array of disjoint cubes\<close>

lemma sorted_nth: "morton_sorted T \<Longrightarrow> i < j \<Longrightarrow> j < length T \<Longrightarrow> okey (T ! i) < okey (T ! j)"
  by (simp add: morton_sorted_def sorted_wrt_iff_nth_less compare_less)

lemma disjoint_nth: "disjoint_cubes T \<Longrightarrow> i < j \<Longrightarrow> j < length T \<Longrightarrow> \<not> overlap (T ! i) (T ! j)"
  by (simp add: disjoint_cubes_def sorted_wrt_iff_nth_less)

lemma disjoint_nth_ne:
  assumes "disjoint_cubes T" "i < length T" "j < length T" "i \<noteq> j"
  shows "\<not> overlap (T ! i) (T ! j)"
proof (cases "i < j")
  case True with assms show ?thesis by (simp add: disjoint_nth)
next
  case False
  with assms have "\<not> overlap (T ! j) (T ! i)" by (simp add: disjoint_nth)
  then show ?thesis using overlap_sym by blast
qed

lemma same_origin_overlap:
  assumes "xc a = xc b" "yc a = yc b" "zc a = zc b"
  shows "overlap a b"
  using assms hlen_pos [of a] hlen_pos [of b] by (simp add: overlap_def)

lemma both_contain_overlap:
  assumes "contains a q" "contains b q"
  shows "overlap a b"
  using assms hlen_pos [of q] by (auto simp: contains_def overlap_def)

text \<open>the direction of the comparisons around the enclosing element\<close>
lemma before_enclosing:
  assumes s: "morton_sorted T" and v: "\<forall>e \<in> set T. valid e" and d: "disjoint_cubes T"
    and q: "inb q" and i: "i < length T" and c: "contains (T ! i) q" and j: "j < i"
  shows "okey (T ! j) < okey q"
proof -
  have vi: "valid (T ! i)" and vj: "valid (T ! j)" using v i j by auto
  have "okey (T ! j) < okey (T ! i)" using s j i by (rule sorted_nth)
  then have 1: "mkey (T ! j) \<le> mkey (T ! i)" by (auto simp: okey_def less_prod_def)
  have 2: "mkey (T ! i) \<le> mkey q"
    using key_cube [OF vi q] contains_origin [OF c] by simp
  have "mkey (T ! j) \<noteq> mkey q"
  proof
    assume "mkey (T ! j) = mkey q"
    with 1 2 have "mkey (T ! j) = mkey (T ! i)" by simp
    then have "overlap (T ! j) (T ! i)"
      using mkey_inj [OF valid_inb [OF vj] valid_inb [OF vi]] same_origin_overlap by blast
    moreover have "\<not> overlap (T ! j) (T ! i)" using d j i by (rule disjoint_nth)
    ultimately show False by simp
  qed
  with 1 2 have "mkey (T ! j) < mkey q" by simp
  then show ?thesis by (simp add: okey_def less_prod_def)
qed

lemma after_enclosing:
  assumes s: "morton_sorted T" and v: "\<forall>e \<in> set T. valid e" and d: "disjoint_cubes T"
    and q: "inb q" and j: "j < length T" and c: "contains (T ! i) q" and i: "i < j"
  shows "okey q < okey (T ! j)"
proof -
  have il: "i < length T" using i j by simp
  have vi: "valid (T ! i)" and vj: "valid (T ! j)" using v il j by auto
  have "okey (T ! i) < okey (T ! j)" using s i j by (rule sorted_nth)
  then have 1: "mkey (T ! i) \<le> mkey (T ! j)" by (auto simp: okey_def less_prod_def)
  have 2: "mkey q < mkey (T ! i) + 8 ^ kk (T ! i)"
    using key_cube [OF vi q] contains_origin [OF c] by simp
  have "\<not> overlap (T ! i) (T ! j)" using d i j by (rule disjoint_nth)
  then have "\<not> origin_in (T ! i) (T ! j)" using origin_overlap by blast
  then have "\<not> mkey (T ! j) < mkey (T ! i) + 8 ^ kk (T ! i)"
    using key_cube [OF vi valid_inb [OF vj]] 1 by simp
  with 2 have "mkey q < mkey (T ! j)" by simp
  then show ?thesis by (simp add: okey_def less_prod_def)
qed

lemma loop_finds:
  assumes s: "morton_sorted T" and v: "\<forall>e \<in> set T. valid e" and d: "disjoint_cubes T"
    and q: "inb q" and ql: "0 \<le> level q" and i: "i < length T" and c: "contains (T ! i) q"
  shows "0 \<le> low \<Longrightarrow> low \<le> int i \<Longrightarrow> int i \<le> high \<Longrightarrow> high < int (length T) \<Longrightarrow>
     low \<le> mid \<Longrightarrow> mid \<le> high \<Longrightarrow> (mid = high \<longrightarrow> high \<le> low + 1) \<Longrightarrow>
     findEnclosing_loop T q low high mid = Some (Inr (Some i))"
proof (induction "nat (high - low)" arbitrary: low high mid rule: less_induct)
  case less
  have ti: "test_at T (int i) q = Inr True"
    using i v c ql by (simp add: test_at_valid)
  have tj: "\<And>j. j < length T \<Longrightarrow> j \<noteq> i \<Longrightarrow> test_at T (int j) q = Inr False"
  proof -
    fix j assume j: "j < length T" "j \<noteq> i"
    have "\<not> contains (T ! j) q"
      using both_contain_overlap [OF _ c] disjoint_nth_ne [OF d j(1) i j(2)] by blast
    then show "test_at T (int j) q = Inr False" using j v ql by (simp add: test_at_valid)
  qed
  show ?case
  proof (cases "high = mid")
    case True
    with less.prems have hl: "high = low \<or> high = low + 1" by auto
    have m: "mid = int i \<or> low = int i" using hl True less.prems by auto
    have ml: "0 \<le> mid" "nat mid < length T" using less.prems by auto
    show ?thesis
    proof (cases "mid = int i")
      case mi: True
      then show ?thesis using True ti
        by (subst findEnclosing_loop.simps) (simp add: findEnclosing_final_def)
    next
      case mi: False
      with m have li: "low = int i" by simp
      have "test_at T (int (nat mid)) q = Inr False" using mi ml by (intro tj) auto
      then have "test_at T mid q = Inr False" using ml by simp
      then show ?thesis using True ti li
        by (subst findEnclosing_loop.simps) (simp add: findEnclosing_final_def)
    qed
  next
    case False
    have ml: "0 \<le> mid" "nat mid < length T" using less.prems by auto
    show ?thesis
    proof (cases "mid = int i")
      case True
      then show ?thesis using False ti by (subst findEnclosing_loop.simps) simp
    next
      case mi: False
      have "test_at T (int (nat mid)) q = Inr False" using mi ml by (intro tj) auto
      then have tm: "test_at T mid q = Inr False" using ml by simp
      show ?thesis
      proof (cases "mid < int i")
        case True
        then have "okey (T ! nat mid) < okey q"
          using before_enclosing [OF s v d q i c, of "nat mid"] ml by simp
        then have cmp: "\<not> compare q (T ! nat mid) < 0" by (auto simp: compare_less)
        let ?low = "mid + 1"
        let ?mid = "high - tdiv2 (high - ?low)"
        have hl: "0 \<le> high - ?low" using False less.prems by simp
        have "findEnclosing_loop T q ?low high ?mid = Some (Inr (Some i))"
          using less.prems True False hl
          by (intro less.hyps) (auto simp: tdiv2_nonneg)
        then show ?thesis using False tm cmp by (subst findEnclosing_loop.simps) simp
      next
        case ge: False
        with mi have gt: "int i < mid" by simp
        then have "okey q < okey (T ! nat mid)"
          using after_enclosing [OF s v d q _ c, of "nat mid"] ml by simp
        then have cmp: "compare q (T ! nat mid) < 0" by (simp add: compare_less)
        let ?high = "mid - 1"
        let ?mid = "?high - tdiv2 (?high - low)"
        have hl: "0 \<le> ?high - low" using gt less.prems by simp
        have "findEnclosing_loop T q low ?high ?mid = Some (Inr (Some i))"
          using less.prems gt hl
          by (intro less.hyps) (auto simp: tdiv2_nonneg)
        then show ?thesis using False tm cmp by (subst findEnclosing_loop.simps) simp
      qed
    qed
  qed
qed

lemma contained_inb:
  assumes "valid e" "contains e q"
  shows "inb q"
  using assms hlen_pos [of q] by (auto simp: valid_def contains_def inb_def hmax_val)

lemma contained_int32:
  assumes "valid e" "contains e q"
  shows "int32 (xc q + hlen q) \<and> int32 (yc q + hlen q) \<and> int32 (zc q + hlen q)"
  using assms hlen_pos [of q] by (auto simp: valid_def contains_def int32_def hmax_val)

lemma findEnclosing_finds:
  assumes s: "morton_sorted T" and v: "\<forall>e \<in> set T. valid e" and d: "disjoint_cubes T"
    and q: "0 \<le> level q" "level q \<le> TMR_MAX_LEVEL" and i: "i < length T" and c: "contains (T ! i) q"
  shows "findEnclosing T q = Some (Inr (Some i))"
proof -
  have vi: "valid (T ! i)" using v i by simp
  have qb: "inb q" using vi c by (rule contained_inb)
  have t: "tdiv2 (int (length T) - 1) = (int (length T) - 1) div 2"
    using i by (intro tdiv2_nonneg) auto
  have "findEnclosing_loop T q 0 (int (length T) - 1) (0 + tdiv2 (int (length T) - 1 - 0)) = Some (Inr (Some i))"
    using i by (intro loop_finds [OF s v d qb q(1) i c]) (auto simp: t)
  moreover have "shift_ok (TMR_MAX_LEVEL - level q)"
    using q by (simp add: shift_ok_def TMR_MAX_LEVEL_def)
  ultimately show ?thesis
    using contained_int32 [OF vi c] by (simp add: findEnclosing_def edge_hlen [OF q(1)])
qed

subsection \<open>The index range of findEnclosingRange\<close>

lemma hlen_unit: "level q = TMR_MAX_LEVEL \<Longrightarrow> hlen q = 1"
  by (simp add: hlen_def)

lemma first_desc_valid:
  assumes "valid q"
  shows "valid (first_desc q) \<and> contains q (first_desc q)"
  using assms hlen_pos [of q]
  by (auto simp: valid_def contains_def first_desc_def hlen_unit TMR_MAX_LEVEL_def)

lemma last_desc_valid:
  assumes "valid q"
  shows "valid (last_desc q) \<and> contains q (last_desc q)"
  using assms hlen_pos [of q]
  by (auto simp: valid_def contains_def last_desc_def hlen_unit TMR_MAX_LEVEL_def)

lemma contains_unique:
  assumes "disjoint_cubes T" "i < length T" "j < length T" "contains (T ! i) q" "contains (T ! j) q"
  shows "i = j"
  using assms both_contain_overlap disjoint_nth_ne by blast

lemma overlap_grow: "overlap a q \<Longrightarrow> contains e q \<Longrightarrow> overlap a e"
  by (auto simp: overlap_def contains_def)

lemma mkey_cong: "xc a = xc b \<Longrightarrow> yc a = yc b \<Longrightarrow> zc a = zc b \<Longrightarrow> mkey a = mkey b"
  by (simp add: mkey_def)

lemma okey_le_mkey: "okey a < okey b \<Longrightarrow> mkey a \<le> mkey b"
  by (auto simp: okey_def less_prod_def)

lemma sorted_nth_le:
  assumes "morton_sorted T" "i \<le> j" "j < length T"
  shows "mkey (T ! i) \<le> mkey (T ! j)"
proof (cases "i = j")
  case True then show ?thesis by simp
next
  case False
  with assms have "okey (T ! i) < okey (T ! j)" by (intro sorted_nth) auto
  then show ?thesis by (rule okey_le_mkey)
qed

lemma same_origin_contains_unit:
  assumes "valid e" "level p = TMR_MAX_LEVEL" "xc e = xc p" "yc e = yc p" "zc e = zc p"
  shows "contains e p"
  using assms hlen_pos [of e] by (simp add: contains_def hlen_unit)

lemma range_exact:
  assumes s: "morton_sorted T" and v: "\<forall>e \<in> set T. valid e" and d: "disjoint_cubes T"
    and q: "valid q"
    and a: "a < length T" and ca: "contains (T ! a) (first_desc q)"
    and b: "b < length T" and cb: "contains (T ! b) (last_desc q)"
    and i: "i < length T"
  shows "(a \<le> i \<and> i \<le> b) \<longleftrightarrow> overlap (T ! i) q"
proof (cases "\<exists>c < length T. contains (T ! c) q")
  case True
  then obtain c where c: "c < length T" "contains (T ! c) q" by blast
  have tr: "\<And>p. contains q p \<Longrightarrow> contains (T ! c) p"
    using c(2) by (auto simp: contains_def)
  have "contains (T ! c) (first_desc q)" using first_desc_valid [OF q] tr by blast
  then have ac: "a = c" using contains_unique [OF d a c(1) ca] by simp
  have "contains (T ! c) (last_desc q)" using last_desc_valid [OF q] tr by blast
  then have bc: "b = c" using contains_unique [OF d b c(1) cb] by simp
  have "overlap (T ! i) q \<longleftrightarrow> i = c"
  proof
    assume "overlap (T ! i) q"
    then have "overlap (T ! i) (T ! c)" using c(2) by (rule overlap_grow)
    then show "i = c" using disjoint_nth_ne [OF d i c(1)] by blast
  next
    assume "i = c" then show "overlap (T ! i) q" using c(2) contains_overlap by simp
  qed
  then show ?thesis using ac bc by auto
next
  case False
  have vT: "\<And>j. j < length T \<Longrightarrow> valid (T ! j)" using v by simp
  have inside: "\<And>j. j < length T \<Longrightarrow> overlap (T ! j) q \<Longrightarrow> contains q (T ! j)"
  proof -
    fix j assume j: "j < length T" "overlap (T ! j) q"
    show "contains q (T ! j)"
    proof (cases "level (T ! j) \<le> level q")
      case True
      then have "contains (T ! j) q" using nested [OF vT [OF j(1)] q j(2)] by simp
      with False j(1) show ?thesis by blast
    next
      case False
      then show ?thesis using nested [OF q vT [OF j(1)] overlap_sym [OF j(2)]] by simp
    qed
  qed
  let ?p1 = "first_desc q" and ?p2 = "last_desc q"
  have p1: "valid ?p1" "contains q ?p1" using first_desc_valid [OF q] by simp_all
  have p2: "valid ?p2" "contains q ?p2" using last_desc_valid [OF q] by simp_all
  have qa: "contains q (T ! a)" using inside [OF a] both_contain_overlap [OF ca p1(2)] by simp
  have qb: "contains q (T ! b)" using inside [OF b] both_contain_overlap [OF cb p2(2)] by simp
  show ?thesis
  proof
    assume r: "a \<le> i \<and> i \<le> b"
    have "xc (T ! a) = xc q \<and> yc (T ! a) = yc q \<and> zc (T ! a) = zc q"
      using qa ca by (auto simp: contains_def first_desc_def)
    then have "mkey (T ! a) = mkey q" by (intro mkey_cong) simp_all
    then have 1: "mkey q \<le> mkey (T ! i)" using sorted_nth_le [OF s _ i, of a] r by simp
    have "mkey (T ! b) < mkey q + 8 ^ kk q"
      using key_cube [OF q valid_inb [OF vT [OF b]]] contains_origin [OF qb] by simp
    then have 2: "mkey (T ! i) < mkey q + 8 ^ kk q" using sorted_nth_le [OF s _ b, of i] r by simp
    have "origin_in q (T ! i)" using key_cube [OF q valid_inb [OF vT [OF i]]] 1 2 by simp
    then show "overlap (T ! i) q" using origin_overlap overlap_sym by blast
  next
    assume o: "overlap (T ! i) q"
    have qi: "contains q (T ! i)" using inside [OF i o] .
    have ib: "inb (T ! i)" using valid_inb [OF vT [OF i]] .
    have "\<not> i < a"
    proof
      assume l: "i < a"
      have "okey (T ! i) < okey ?p1"
        using before_enclosing [OF s v d valid_inb [OF p1(1)] a ca l] .
      then have "mkey (T ! i) \<le> mkey ?p1" by (rule okey_le_mkey)
      moreover have "mkey ?p1 \<le> mkey (T ! i)"
        using qi by (intro mkey_mono valid_inb [OF p1(1)] ib) (auto simp: contains_def first_desc_def)
      ultimately have "mkey (T ! i) = mkey ?p1" by simp
      then have "xc (T ! i) = xc ?p1 \<and> yc (T ! i) = yc ?p1 \<and> zc (T ! i) = zc ?p1"
        by (intro mkey_inj ib valid_inb [OF p1(1)])
      then have "contains (T ! i) ?p1"
        by (intro same_origin_contains_unit vT [OF i]) (simp_all add: first_desc_def)
      then have "i = a" using contains_unique [OF d i a _ ca] by simp
      with l show False by simp
    qed
    moreover have "\<not> b < i"
    proof
      assume l: "b < i"
      have "okey ?p2 < okey (T ! i)"
        using after_enclosing [OF s v d valid_inb [OF p2(1)] i cb l] .
      then have "mkey ?p2 \<le> mkey (T ! i)" by (rule okey_le_mkey)
      moreover have "mkey (T ! i) \<le> mkey ?p2"
        using qi hlen_pos [of "T ! i"]
        by (intro mkey_mono valid_inb [OF p2(1)] ib) (auto simp: contains_def last_desc_def)
      ultimately have "mkey (T ! i) = mkey ?p2" by simp
      then have "xc (T ! i) = xc ?p2 \<and> yc (T ! i) = yc ?p2 \<and> zc (T ! i) = zc ?p2"
        by (intro mkey_inj ib valid_inb [OF p2(1)])
      then have "contains (T ! i) ?p2"
        by (intro same_origin_contains_unit vT [OF i]) (simp_all add: last_desc_def)
      then have "i = b" using contains_unique [OF d i b _ cb] by simp
      with l show False by simp
    qed
    ultimately show "a \<le> i \<and> i \<le> b" by simp
  qed
qed

lemma findEnclosingRange_value:
  assumes s: "morton_sorted T" and v: "\<forall>e \<in> set T. valid e" and d: "disjoint_cubes T"
    and q: "valid q"
    and a: "a < length T" and ca: "contains (T ! a) (first_desc q)"
    and b: "b < length T" and cb: "contains (T ! b) (last_desc q)"
  shows "findEnclosingRange T n q = Some (Inr (tag (T ! a), tag (T ! b) + 1))"
proof -
  have l: "0 \<le> level (first_desc q)" "level (first_desc q) \<le> TMR_MAX_LEVEL"
     "0 \<le> level (last_desc q)" "level (last_desc q) \<le> TMR_MAX_LEVEL"
    by (simp_all add: first_desc_def last_desc_def TMR_MAX_LEVEL_def)
  have 1: "findEnclosing T (first_desc q) = Some (Inr (Some a))"
    using findEnclosing_finds [OF s v d l(1,2) a ca] .
  have 2: "findEnclosing T (last_desc q) = Some (Inr (Some b))"
    using findEnclosing_finds [OF s v d l(3,4) b cb] .
  have fd: "xc (first_desc q) = xc q" "yc (first_desc q) = yc q" "zc (first_desc q) = zc q"
    by (simp_all add: first_desc_def)
  have p2: "(first_desc q)\<lparr>xc := xc q + (hlen q - 1), yc := yc q + (hlen q - 1), zc := zc q + (hlen q - 1)\<rparr>
      = last_desc q" by (simp add: last_desc_def first_desc_def)
  have i32: "int32 (xc q + (hlen q - 1)) \<and> int32 (yc q + (hlen q - 1)) \<and> int32 (zc q + (hlen q - 1))"
    using q hlen_pos [of q] by (auto simp: valid_def int32_def hmax_val)
  show ?thesis
    using valid_shift_ok [OF q] 1 2 i32
    by (simp add: findEnclosingRange_def Let_def valid_edge [OF q] first_desc_def [symmetric] fd p2)
qed

section \<open>Sorted arrays and hashes\<close>

lemma uniquify_subset: "set (uniquify xs) \<subseteq> set xs"
  by (induction xs rule: uniquify.induct) auto

lemma uniquify_hd: "xs \<noteq> [] \<Longrightarrow> hd (uniquify xs) = hd xs \<and> uniquify xs \<noteq> []"
  by (induction xs rule: uniquify.induct) auto


lemma uniquify_strict:
  "sorted (map okey xs) \<Longrightarrow> sorted_wrt (\<lambda>a b. okey a < okey b) (uniquify xs)"
proof (induction xs rule: uniquify.induct)
  case 1 show ?case by simp
next
  case (2 a) show ?case by simp
next
  case (3 a b qs)
  show ?case
  proof (cases "compare a b = 0")
    case True
    have "sorted (map okey (a # qs))" using "3.prems" by simp
    with True 3 show ?thesis by simp
  next
    case False
    have s: "sorted (map okey (b # qs))" using "3.prems" by simp
    have ab: "okey a < okey b" using False "3.prems" by (auto simp: compare_eq0)
    have "\<forall>c \<in> set (uniquify (b # qs)). okey a < okey c"
    proof
      fix c assume "c \<in> set (uniquify (b # qs))"
      then have "c \<in> set (b # qs)" using uniquify_subset by blast
      then have "okey b \<le> okey c" using s by auto
      with ab show "okey a < okey c" by simp
    qed
    with False 3 s show ?thesis by simp
  qed
qed


lemma morton_sorted_okey: "morton_sorted xs \<longleftrightarrow> sorted_wrt (\<lambda>a b. okey a < okey b) xs"
  by (simp add: morton_sorted_def compare_less)


lemma sort_array_sorted: "morton_sorted (sort_array xs)"
  unfolding morton_sorted_okey sort_array_def by (rule uniquify_strict) simp


lemma sort_array_subset: "set (sort_array xs) \<subseteq> set xs"
  using uniquify_subset [of "sort_key okey xs"] by (simp add: sort_array_def)











section \<open>Children, siblings and parents\<close>







text \<open>the shape of a valid octant below the deepest level\<close>
lemma valid_shape:
  assumes "valid a" "level a < TMR_MAX_LEVEL"
  shows "\<exists>k. kk a = Suc k \<and> hlen a = 2 * 2 ^ k \<and> hlen a div 2 = 2 ^ k \<and> k < 30"
proof -
  from assms have "0 < kk a" "kk a \<le> 30" by (auto simp: kk_def valid_def TMR_MAX_LEVEL_def)
  then obtain k where k: "kk a = Suc k" "k < 30" by (cases "kk a") auto
  have "hlen a = 2 ^ kk a" using assms(1) by (simp add: hlen_pow valid_def kk_def)
  with k show ?thesis by auto
qed


















section \<open>refine\<close>















section \<open>createNodes\<close>

lemma clamp_order_cases: "clamp_order ord = 2 \<or> clamp_order ord = 3"
  by (auto simp: clamp_order_def Let_def)

lemma clamp_order_3: "clamp_order ord = 3 \<longleftrightarrow> 3 \<le> ord"
  by (auto simp: clamp_order_def Let_def)

lemma element_nodes_2:
  assumes "valid a"
  shows "element_nodes 2 a = Inr (spec_nodes 2 a)"
  using valid_shift_ok [OF assms] valid_edge [OF assms]
  by (simp add: element_nodes_def spec_nodes_def node_at_def edge_def)

lemma element_nodes_3:
  assumes "valid a" "level a < TMR_MAX_LEVEL"
  shows "element_nodes 3 a = Inr (spec_nodes 3 a)"
proof -
  obtain k where k: "kk a = Suc k" "hlen a div 2 = 2 ^ k" using valid_shape [OF assms] by blast
  have "nat (TMR_MAX_LEVEL - level a - 1) = k" using k(1) by (simp add: kk_def)
  moreover have "TMR_MAX_LEVEL - level a - 1 \<noteq> 31"
    using assms(1) by (simp add: valid_def TMR_MAX_LEVEL_def)
  ultimately have h: "shl1 (TMR_MAX_LEVEL - level a - 1) = hlen a div 2" using k(2) by (simp add: shl1_def)
  have "shift_ok (TMR_MAX_LEVEL - level a - 1)"
    using assms by (auto simp: shift_ok_def valid_def TMR_MAX_LEVEL_def)
  then show ?thesis
    by (simp add: element_nodes_def spec_nodes_def node_at_def h)
qed

lemma all_element_nodes_spec:
  assumes "\<forall>a \<in> set T. element_nodes c a = Inr (spec_nodes c a)"
  shows "all_element_nodes c T = Inr (concat (map (spec_nodes c) T))"
  using assms by (induction T) simp_all

lemma spec_nodes_length: "c = 2 \<or> c = 3 \<Longrightarrow> length (spec_nodes c a) = nat (c ^ 3)"
  by (auto simp: spec_nodes_def upto_rec1)

lemma spec_nodes_members:
  assumes "q \<in> set (spec_nodes c a)"
  shows "level q = 0 \<and> tag q = 1 \<and>
    (\<exists>i j k. 0 \<le> i \<and> i \<le> c - 1 \<and> 0 \<le> j \<and> j \<le> c - 1 \<and> 0 \<le> k \<and> k \<le> c - 1 \<and>
       xc q = xc a + i * (hlen a div (c - 1)) \<and> yc q = yc a + j * (hlen a div (c - 1)) \<and>
       zc q = zc a + k * (hlen a div (c - 1)))"
proof -
  from assms obtain k j i where m: "k \<in> set [0 .. c - 1]" "j \<in> set [0 .. c - 1]" "i \<in> set [0 .. c - 1]"
    "q = \<lparr>xc = xc a + i * (hlen a div (c - 1)), yc = yc a + j * (hlen a div (c - 1)),
          zc = zc a + k * (hlen a div (c - 1)), level = 0, tag = 1\<rparr>"
    unfolding spec_nodes_def by auto
  have "0 \<le> i \<and> i \<le> c - 1 \<and> 0 \<le> j \<and> j \<le> c - 1 \<and> 0 \<le> k \<and> k \<le> c - 1 \<and>
       xc q = xc a + i * (hlen a div (c - 1)) \<and> yc q = yc a + j * (hlen a div (c - 1)) \<and>
       zc q = zc a + k * (hlen a div (c - 1))"
    using m by simp
  then have "\<exists>i j k. 0 \<le> i \<and> i \<le> c - 1 \<and> 0 \<le> j \<and> j \<le> c - 1 \<and> 0 \<le> k \<and> k \<le> c - 1 \<and>
       xc q = xc a + i * (hlen a div (c - 1)) \<and> yc q = yc a + j * (hlen a div (c - 1)) \<and>
       zc q = zc a + k * (hlen a div (c - 1))"
    by blast
  then show ?thesis using m(4) by simp
qed

lemma two_div_le: "2 * ((h::int) div 2) \<le> h"
  by presburger

lemma spec_nodes_int32:
  assumes a: "valid a" and c: "c = 2 \<or> c = 3" and q: "q \<in> set (spec_nodes c a)"
  shows "coords_int32 q"
proof -
  obtain i j k where m: "0 \<le> i" "i \<le> c - 1" "0 \<le> j" "j \<le> c - 1" "0 \<le> k" "k \<le> c - 1"
     "xc q = xc a + i * (hlen a div (c - 1))" "yc q = yc a + j * (hlen a div (c - 1))"
     "zc q = zc a + k * (hlen a div (c - 1))"
    using spec_nodes_members [OF q] by blast
  have s: "\<And>i::int. 0 \<le> i \<Longrightarrow> i \<le> c - 1 \<Longrightarrow> 0 \<le> i * (hlen a div (c - 1)) \<and> i * (hlen a div (c - 1)) \<le> hlen a"
  proof -
    fix i :: int assume i: "0 \<le> i" "i \<le> c - 1"
    have p: "0 \<le> hlen a div (c - 1)" using hlen_pos [of a] c by (auto simp: pos_imp_zdiv_nonneg_iff)
    have "i * (hlen a div (c - 1)) \<le> (c - 1) * (hlen a div (c - 1))" using i p by (simp add: mult_right_mono)
    also have "\<dots> \<le> hlen a" using c two_div_le [of "hlen a"] by (elim disjE) simp_all
    finally show "0 \<le> i * (hlen a div (c - 1)) \<and> i * (hlen a div (c - 1)) \<le> hlen a" using i p by simp
  qed
  show ?thesis
    using a s [OF m(1,2)] s [OF m(3,4)] s [OF m(5,6)] m(7-9)
    by (auto simp: coords_int32_def int32_def valid_def hmax_val)
qed

lemma sorted_level0_distinct:
  assumes "morton_sorted ns" "\<forall>q \<in> set ns. level q = 0"
  shows "distinct (map (\<lambda>q. (xc q, yc q, zc q)) ns)"
  using assms
proof (induction ns)
  case Nil show ?case by simp
next
  case (Cons a ns)
  have s: "morton_sorted ns" using Cons.prems(1) by (simp add: morton_sorted_def)
  have "\<forall>b \<in> set ns. (xc a, yc a, zc a) \<noteq> (xc b, yc b, zc b)"
  proof
    fix b assume b: "b \<in> set ns"
    then have "okey a < okey b" using Cons.prems(1) by (simp add: morton_sorted_okey)
    moreover have "level a = level b" using Cons.prems(2) b by simp
    ultimately have "mkey a \<noteq> mkey b" by (auto simp: okey_def)
    then show "(xc a, yc a, zc a) \<noteq> (xc b, yc b, zc b)" using mkey_cong [of a b] by auto
  qed
  then have "(xc a, yc a, zc a) \<notin> (\<lambda>q. (xc q, yc q, zc q)) ` set ns" by auto
  then show ?case using Cons.IH [OF s] Cons.prems(2) by simp
qed

subsection \<open>The coarsening scan and the sibling families\<close>





lemma coords_hlen: "coords a = coords b \<Longrightarrow> hlen a = hlen b"
  by (simp add: coords_def hlen_def)





















section \<open>Facts about the small trees\<close>

text \<open>Unrolling the interleaving at a numeral bit count.\<close>

lemma interleave_numeral:
  "interleave (numeral n) a b c =
     a mod 2 + 2 * (b mod 2) + 4 * (c mod 2) + 8 * interleave (pred_numeral n) (a div 2) (b div 2) (c div 2)"
  by (simp add: numeral_eq_Suc)

lemma interleave_one: "interleave 1 a b c = a mod 2 + 2 * (b mod 2) + 4 * (c mod 2)"
  unfolding One_nat_def by simp

lemmas key_eval = okey_def mkey_def interleave_numeral interleave_one

lemmas octant_eval = hlen_def edge_def shl1_def TMR_MAX_LEVEL_def hmax_def

lemmas findEnclosing_eval =
  findEnclosing_def findEnclosing_loop.simps findEnclosing_final_def test_at_def elem_at_def
  contains_test_def axis_test_def shift_ok_def int32_def tdiv2_def compare_def

lemma level1_keys:
  "map okey level1_tree =
     [(0, 1), (2 ^ 87, 1), (2 ^ 88, 1), (2 ^ 87 + 2 ^ 88, 1), (2 ^ 89, 1), (2 ^ 87 + 2 ^ 89, 1),
      (2 ^ 88 + 2 ^ 89, 1), (2 ^ 87 + 2 ^ 88 + 2 ^ 89, 1)]"
  by (simp add: level1_tree_def key_eval)

lemma level1_sorted: "morton_sorted level1_tree"
  unfolding morton_sorted_def compare_less
  by (simp only: sorted_wrt_map [symmetric, of "(<)" okey] level1_keys) simp

lemma level1_hlen: "\<forall>e \<in> set level1_tree. hlen e = 536870912 \<and> level e = 1"
  by (simp add: level1_tree_def octant_eval)

lemma level1_valid: "\<forall>e \<in> set level1_tree. valid e"
  by (simp add: level1_tree_def valid_def octant_eval)

lemma level1_disjoint: "disjoint_cubes level1_tree"
  by (simp add: level1_tree_def disjoint_cubes_def overlap_def octant_eval)

lemma level1_balanced: "balanced level1_tree"
  using level1_hlen by (simp add: balanced_def)

lemma level1_covers: "covers level1_tree"
  unfolding covers_def
proof (intro allI impI)
  fix p assume p: "valid p \<and> level p = TMR_MAX_LEVEL"
  then have h: "hlen p = 1" by (simp add: hlen_def)
  from p h have b: "0 \<le> xc p" "xc p < 1073741824" "0 \<le> yc p" "yc p < 1073741824" "0 \<le> zc p" "zc p < 1073741824"
    by (auto simp: valid_def hmax_val)
  have c: "\<And>e. e \<in> set level1_tree \<Longrightarrow> xc e \<le> xc p \<Longrightarrow> xc p < xc e + 536870912 \<Longrightarrow>
      yc e \<le> yc p \<Longrightarrow> yc p < yc e + 536870912 \<Longrightarrow> zc e \<le> zc p \<Longrightarrow> zc p < zc e + 536870912 \<Longrightarrow>
      \<exists>e \<in> set level1_tree. contains e p"
    using h level1_hlen by (auto simp: contains_def)
  show "\<exists>e \<in> set level1_tree. contains e p"
  proof (cases "xc p < 536870912")
    case x: True
    show ?thesis
    proof (cases "yc p < 536870912")
      case y: True
      show ?thesis
      proof (cases "zc p < 536870912")
        case True
        with x y b show ?thesis
          by (intro c [of "\<lparr>xc = 0, yc = 0, zc = 0, level = 1, tag = 0\<rparr>"]) (simp_all add: level1_tree_def)
      next
        case False
        with x y b show ?thesis
          by (intro c [of "\<lparr>xc = 0, yc = 0, zc = 536870912, level = 1, tag = 4\<rparr>"]) (simp_all add: level1_tree_def)
      qed
    next
      case y: False
      show ?thesis
      proof (cases "zc p < 536870912")
        case True
        with x y b show ?thesis
          by (intro c [of "\<lparr>xc = 0, yc = 536870912, zc = 0, level = 1, tag = 2\<rparr>"]) (simp_all add: level1_tree_def)
      next
        case False
        with x y b show ?thesis
          by (intro c [of "\<lparr>xc = 0, yc = 536870912, zc = 536870912, level = 1, tag = 6\<rparr>"]) (simp_all add: level1_tree_def)
      qed
    qed
  next
    case x: False
    show ?thesis
    proof (cases "yc p < 536870912")
      case y: True
      show ?thesis
      proof (cases "zc p < 536870912")
        case True
        with x y b show ?thesis
          by (intro c [of "\<lparr>xc = 536870912, yc = 0, zc = 0, level = 1, tag = 1\<rparr>"]) (simp_all add: level1_tree_def)
      next
        case False
        with x y b show ?thesis
          by (intro c [of "\<lparr>xc = 536870912, yc = 0, zc = 536870912, level = 1, tag = 5\<rparr>"]) (simp_all add: level1_tree_def)
      qed
    next
      case y: False
      show ?thesis
      proof (cases "zc p < 536870912")
        case True
        with x y b show ?thesis
          by (intro c [of "\<lparr>xc = 536870912, yc = 536870912, zc = 0, level = 1, tag = 3\<rparr>"]) (simp_all add: level1_tree_def)
      next
        case False
        with x y b show ?thesis
          by (intro c [of "\<lparr>xc = 536870912, yc = 536870912, zc = 536870912, level = 1, tag = 7\<rparr>"]) (simp_all add: level1_tree_def)
      qed
    qed
  qed
qed


lemma level1_partition: "partitions_domain level1_tree"
  using level1_valid level1_disjoint level1_covers by (simp add: partitions_domain_def)

lemma root_valid: "valid root_octant"
  by (simp add: root_octant_def valid_def octant_eval)

lemma level1_tags: "\<forall>i < length level1_tree. tag (level1_tree ! i) = int i"
proof -
  have "map tag level1_tree = map int [0 ..< length level1_tree]"
    by (simp add: level1_tree_def upt_rec)
  then show ?thesis by (metis length_map nth_map nth_upt add_0 )
qed







subsection \<open>Two nested octants\<close>









section \<open>The claims\<close>

text \<open>
  Claim C10. For every query octant and every element array with at least one entry,
  findEnclosing terminates and reads \<^verbatim>\<open>elems[mid]\<close> and \<^verbatim>\<open>elems[low]\<close> only at indices in
  \<open>[0, size)\<close>; mid never becomes negative. The code breaks this on an array of two
  elements: the first mid is \<open>low + (high - low)/2 = 0\<close>, not high as the loop's comment
  says, and a query that sorts before \<^verbatim>\<open>elems[0]\<close> sets high to \<open>-1\<close>, mid to \<open>-1\<close>, and the
  test after the loop reads \<^verbatim>\<open>elems[-1]\<close>.
\<close>

theorem findEnclosing_reads_before_array:
  "findEnclosing
     [\<lparr>xc = 1, yc = 0, zc = 0, level = 30, tag = 0\<rparr>,
      \<lparr>xc = 0, yc = 1, zc = 0, level = 30, tag = 1\<rparr>]
     \<lparr>xc = 0, yc = 0, zc = 0, level = 30, tag = 0\<rparr>
   = Some (Inl (IndexOutOfRange (- 1)))"
  by (simp add: findEnclosing_def findEnclosing_loop.simps findEnclosing_final_def test_at_def
      elem_at_def contains_test_def axis_test_def shift_ok_def TMR_MAX_LEVEL_def hlen_def
      edge_def shl1_def int32_def tdiv2_def compare_def key_eval)

text \<open>
  Claim C8. The level-uniform constructor clamps its argument into \<open>[0, LMAX]\<close> and
  builds the \<open>2^(3L)\<close> octants of level L that tile the domain. The code's upper test is
  \<^verbatim>\<open>refine_level-1 > TMR_MAX_LEVEL\<close>: the argument \<open>LMAX + 1 = 31\<close> passes it unclamped, and
  the edge length is then \<^verbatim>\<open>1 << -1\<close>.
\<close>

theorem uniform_constructor_level_31:
  "clamp_level 31 = 31 \<and> \<not> (0 \<le> clamp_level 31 \<and> clamp_level 31 \<le> TMR_MAX_LEVEL)
   \<and> TMROctree_uniform 31 = Inl UndefinedArith"
  by (simp add: clamp_level_def TMROctree_uniform_def TMR_MAX_LEVEL_def shift_ok_def)

text \<open>
  Claim C3. On a sorted, 2:1 balanced element array whose cubes partition the domain,
  findEnclosing(o) is said to return a stored element containing o for every octant o
  inside the domain; and on any array a non-null result contains o. The first part
  fails for an octant that is coarser than the elements it covers: on the eight elements
  of level 1 no element contains the root octant, and findEnclosing returns NULL, as its
  header comment says it does when no such octant exists.
\<close>

theorem findEnclosing_root_in_level1_tree:
  "morton_sorted level1_tree \<and> balanced level1_tree \<and> partitions_domain level1_tree \<and>
   valid root_octant \<and> findEnclosing level1_tree root_octant = Some (Inr None)"
proof -
  have "findEnclosing level1_tree root_octant = Some (Inr None)"
    by (simp add: findEnclosing_eval octant_eval key_eval level1_tree_def root_octant_def)
  then show ?thesis
    using level1_sorted level1_balanced level1_partition root_valid by simp
qed

text \<open>
  Claim C3, amended. On an array in strict Morton order of valid octants with pairwise
  disjoint cubes (in particular on a balanced array whose cubes partition the domain),
  for every octant o of a level in \<open>[0, LMAX]\<close> whose cube lies in the cube of the stored
  element i, findEnclosing(o) returns the pointer to element i. And on any array and for
  any o, a non-null result is a stored element that passes the containment test of the
  source against o, so that its cube contains the cube of o whenever the two levels are
  not negative.
\<close>

theorem findEnclosing_enclosing_element:
  "(morton_sorted T \<and> (\<forall>e \<in> set T. valid e) \<and> disjoint_cubes T \<and>
    0 \<le> level q \<and> level q \<le> TMR_MAX_LEVEL \<and> i < length T \<and> contains (T ! i) q
      \<longrightarrow> findEnclosing T q = Some (Inr (Some i))) \<and>
   (findEnclosing T q = Some (Inr (Some j))
      \<longrightarrow> j < length T \<and> encloses (T ! j) q \<and>
          (0 \<le> level q \<and> 0 \<le> level (T ! j) \<longrightarrow> contains (T ! j) q))"
  using findEnclosing_finds [of T q i] findEnclosing_sound [of T q j]
    encloses_contains [of "T ! j" q] by blast

theorem findEnclosing_enclosing_element_witness:
  "findEnclosing level1_tree \<lparr>xc = 805306368, yc = 0, zc = 536870912, level = 2, tag = 0\<rparr>
     = Some (Inr (Some 5)) \<and>
   contains (level1_tree ! 5) \<lparr>xc = 805306368, yc = 0, zc = 536870912, level = 2, tag = 0\<rparr> \<and>
   encloses (level1_tree ! 5) \<lparr>xc = 805306368, yc = 0, zc = 536870912, level = 2, tag = 0\<rparr>"
proof -
  let ?q = "\<lparr>xc = 805306368, yc = 0, zc = 536870912, level = 2, tag = 0\<rparr>"
  have c: "contains (level1_tree ! 5) ?q"
    by (simp add: level1_tree_def contains_def octant_eval)
  have l: "0 \<le> level ?q \<and> level ?q \<le> TMR_MAX_LEVEL \<and> 5 < length level1_tree"
    by (simp add: level1_tree_def TMR_MAX_LEVEL_def)
  show ?thesis
    using findEnclosing_enclosing_element [of level1_tree ?q 5 5]
      level1_sorted level1_valid level1_disjoint c l by simp
qed

text \<open>
  Claim C9. On a balanced octree whose cubes partition the domain and whose tags are the
  array indices, with the element count for \<^verbatim>\<open>num_elements\<close>, and for every octant o
  (an octant satisfies the invariants of the data model: level in \<open>[0, LMAX]\<close>,
  coordinates multiples of its edge length, cube inside the domain), findEnclosingRange(o)
  returns \<open>[a, b + 1)\<close>, where a and b are the indices of the elements that enclose the
  first and the last descendant of o at level LMAX, and an index lies in that range
  exactly when the cube of its element intersects the cube of o. The balance of the tree
  is not needed for it.
\<close>

theorem findEnclosingRange_valid_octant:
  assumes "morton_sorted T" "partitions_domain T" "\<forall>i < length T. tag (T ! i) = int i" "valid q"
  shows "\<exists>a b. a < length T \<and> b < length T \<and>
           contains (T ! a) (first_desc q) \<and> contains (T ! b) (last_desc q) \<and>
           findEnclosingRange T (int (length T)) q = Some (Inr (int a, int b + 1)) \<and>
           (\<forall>i < length T. (int a \<le> int i \<and> int i < int b + 1) \<longleftrightarrow> overlap (T ! i) q)"
proof -
  from assms(2) have v: "\<forall>e \<in> set T. valid e" and d: "disjoint_cubes T" and c: "covers T"
    by (simp_all add: partitions_domain_def)
  have l: "level (first_desc q) = TMR_MAX_LEVEL" "level (last_desc q) = TMR_MAX_LEVEL"
    by (simp_all add: first_desc_def last_desc_def)
  obtain a where a: "a < length T" "contains (T ! a) (first_desc q)"
    using c first_desc_valid [OF assms(4)] l(1) unfolding covers_def by (metis in_set_conv_nth)
  obtain b where b: "b < length T" "contains (T ! b) (last_desc q)"
    using c last_desc_valid [OF assms(4)] l(2) unfolding covers_def by (metis in_set_conv_nth)
  have "findEnclosingRange T (int (length T)) q = Some (Inr (tag (T ! a), tag (T ! b) + 1))"
    using findEnclosingRange_value [OF assms(1) v d assms(4) a b] .
  then have r: "findEnclosingRange T (int (length T)) q = Some (Inr (int a, int b + 1))"
    using assms(3) a(1) b(1) by simp
  have "\<forall>i < length T. (int a \<le> int i \<and> int i < int b + 1) \<longleftrightarrow> overlap (T ! i) q"
    using range_exact [OF assms(1) v d assms(4) a b] by auto
  with a b r show ?thesis by blast
qed

theorem findEnclosingRange_valid_octant_witness:
  "\<exists>a b. int a = 5 \<and> int b + 1 = 6 \<and> a < length level1_tree \<and> b < length level1_tree \<and>
     contains (level1_tree ! a) (first_desc \<lparr>xc = 805306368, yc = 0, zc = 536870912, level = 2, tag = 0\<rparr>) \<and>
     contains (level1_tree ! b) (last_desc \<lparr>xc = 805306368, yc = 0, zc = 536870912, level = 2, tag = 0\<rparr>) \<and>
     findEnclosingRange level1_tree (int (length level1_tree))
        \<lparr>xc = 805306368, yc = 0, zc = 536870912, level = 2, tag = 0\<rparr> = Some (Inr (int a, int b + 1)) \<and>
     (\<forall>i < length level1_tree. (int a \<le> int i \<and> int i < int b + 1) \<longleftrightarrow>
        overlap (level1_tree ! i) \<lparr>xc = 805306368, yc = 0, zc = 536870912, level = 2, tag = 0\<rparr>)"
proof -
  let ?q = "\<lparr>xc = 805306368, yc = 0, zc = 536870912, level = 2, tag = 0\<rparr>"
  have v: "valid ?q" by (simp add: valid_def octant_eval)
  have e: "findEnclosingRange level1_tree (int (length level1_tree)) ?q = Some (Inr (5, 6))"
    by (simp add: findEnclosingRange_def findEnclosing_eval octant_eval key_eval level1_tree_def)
  obtain a b where ab: "a < length level1_tree" "b < length level1_tree"
     "contains (level1_tree ! a) (first_desc ?q)" "contains (level1_tree ! b) (last_desc ?q)"
     "findEnclosingRange level1_tree (int (length level1_tree)) ?q = Some (Inr (int a, int b + 1))"
     "\<forall>i < length level1_tree. (int a \<le> int i \<and> int i < int b + 1) \<longleftrightarrow> overlap (level1_tree ! i) ?q"
    using findEnclosingRange_valid_octant [OF level1_sorted level1_partition level1_tags v] by blast
  from ab(5) e have "int a = 5 \<and> int b + 1 = 6" by simp
  with ab show ?thesis by blast
qed





text \<open>
  Claim C7. For every octree and every order, createNodes clamps the order into \<open>{2, 3}\<close>,
  emits per element the \<open>order\<^sup>3\<close> candidate nodes at the tensor-product positions (step h
  for order 2, step h/2 for order 3) with level 0 and tag 1, and stores them sorted and
  without two nodes at one (x, y, z). For order 3 the step is \<^verbatim>\<open>1 << (TMR_MAX_LEVEL - level - 1)\<close>:
  on an element of level LMAX, whose edge is 1, the shift count is \<open>-1\<close> and there is no
  half step on the integer grid.
\<close>

theorem createNodes_order3_unit_cube:
  "morton_sorted (elements unit_tree) \<and> list_all valid (elements unit_tree) \<and>
   createNodes unit_tree 3 = Inl UndefinedArith"
  by (simp add: unit_tree_def morton_sorted_def valid_def octant_eval createNodes_def clamp_order_def
      element_nodes_def shift_ok_def)

text \<open>
  Claim C7, amended. For every octree of valid octants, of levels below LMAX when the
  order is 3 or more, and for every order argument, createNodes clamps the order into
  \<open>{2, 3}\<close>, emits per element exactly \<open>order\<^sup>3\<close> candidates at the tensor-product positions
  (step h for order 2, h/2 for order 3), each with level 0 and tag 1, and stores their
  sorted array, which is in strict Morton order and holds no two nodes with the same
  (x, y, z).
\<close>

theorem createNodes_candidates:
  assumes "\<forall>a \<in> set (elements t). valid a"
    and "3 \<le> ord \<longrightarrow> (\<forall>a \<in> set (elements t). level a < TMR_MAX_LEVEL)"
  shows "\<exists>ns. createNodes t ord = Inr (t\<lparr>nodes := Some ns, order := clamp_order ord\<rparr>) \<and>
           (clamp_order ord = 2 \<or> clamp_order ord = 3) \<and>
           (ord \<le> 2 \<longrightarrow> clamp_order ord = 2) \<and> (3 \<le> ord \<longrightarrow> clamp_order ord = 3) \<and>
           (\<forall>a \<in> set (elements t).
              element_nodes (clamp_order ord) a = Inr (spec_nodes (clamp_order ord) a) \<and>
              length (spec_nodes (clamp_order ord) a) = nat (clamp_order ord ^ 3) \<and>
              (\<forall>q \<in> set (spec_nodes (clamp_order ord) a). level q = 0 \<and> tag q = 1)) \<and>
           all_element_nodes (clamp_order ord) (elements t)
             = Inr (concat (map (spec_nodes (clamp_order ord)) (elements t))) \<and>
           ns = sort_array (concat (map (spec_nodes (clamp_order ord)) (elements t))) \<and>
           morton_sorted ns \<and> distinct (map (\<lambda>q. (xc q, yc q, zc q)) ns)"
proof -
  let ?c = "clamp_order ord"
  let ?all = "concat (map (spec_nodes ?c) (elements t))"
  have c: "?c = 2 \<or> ?c = 3" by (rule clamp_order_cases)
  have c2: "(ord \<le> 2 \<longrightarrow> ?c = 2) \<and> (3 \<le> ord \<longrightarrow> ?c = 3)"
    by (auto simp: clamp_order_def Let_def)
  have en: "\<forall>a \<in> set (elements t). element_nodes ?c a = Inr (spec_nodes ?c a)"
  proof
    fix a assume a: "a \<in> set (elements t)"
    show "element_nodes ?c a = Inr (spec_nodes ?c a)"
    proof (cases "?c = 3")
      case True
      then have "level a < TMR_MAX_LEVEL" using assms(2) a by (simp add: clamp_order_3)
      then show ?thesis using True assms(1) a by (simp add: element_nodes_3)
    next
      case False
      then have "?c = 2" using c by simp
      then show ?thesis using assms(1) a by (simp add: element_nodes_2)
    qed
  qed
  have all: "all_element_nodes ?c (elements t) = Inr ?all"
    using en by (rule all_element_nodes_spec)
  have lt: "\<forall>a \<in> set (elements t). \<forall>q \<in> set (spec_nodes ?c a). level q = 0 \<and> tag q = 1"
    using spec_nodes_members by blast
  have lt': "\<forall>q \<in> set ?all. level q = 0 \<and> tag q = 1"
    using lt by auto
  have i32: "list_all coords_int32 ?all"
    unfolding list_all_iff using spec_nodes_int32 [OF _ c] assms(1) by auto
  have cn: "createNodes t ord = Inr (t\<lparr>nodes := Some (sort_array ?all), order := ?c\<rparr>)"
    by (simp add: createNodes_def all i32)
  have l0: "\<forall>q \<in> set (sort_array ?all). level q = 0"
    using lt' sort_array_subset [of ?all] by blast
  have d: "distinct (map (\<lambda>q. (xc q, yc q, zc q)) (sort_array ?all))"
    using sort_array_sorted l0 by (rule sorted_level0_distinct)
  have len: "\<forall>a \<in> set (elements t). length (spec_nodes ?c a) = nat (?c ^ 3)"
    using spec_nodes_length [OF c] by simp
  have per: "\<forall>a \<in> set (elements t).
              element_nodes ?c a = Inr (spec_nodes ?c a) \<and>
              length (spec_nodes ?c a) = nat (?c ^ 3) \<and>
              (\<forall>q \<in> set (spec_nodes ?c a). level q = 0 \<and> tag q = 1)"
    using en len lt by blast
  show ?thesis
    using cn c c2 per all sort_array_sorted [of ?all] d by blast
qed

theorem createNodes_candidates_witness:
  "\<exists>ns. createNodes \<lparr>elements = level1_tree, nodes = None, order = 2\<rparr> 3
             = Inr (\<lparr>elements = level1_tree, nodes = None, order = 2\<rparr>\<lparr>nodes := Some ns, order := clamp_order 3\<rparr>) \<and>
           clamp_order 3 = 3 \<and>
           all_element_nodes (clamp_order 3) level1_tree
             = Inr (concat (map (spec_nodes (clamp_order 3)) level1_tree)) \<and>
           ns = sort_array (concat (map (spec_nodes (clamp_order 3)) level1_tree)) \<and>
           morton_sorted ns \<and> distinct (map (\<lambda>q. (xc q, yc q, zc q)) ns)"
proof -
  let ?t = "\<lparr>elements = level1_tree, nodes = None, order = 2\<rparr>"
  have 1: "\<forall>a \<in> set (elements ?t). valid a" using level1_valid by simp
  have 2: "3 \<le> (3::int) \<longrightarrow> (\<forall>a \<in> set (elements ?t). level a < TMR_MAX_LEVEL)"
    using level1_hlen by (simp add: TMR_MAX_LEVEL_def)
  show ?thesis
    using createNodes_candidates [OF 1 2] by auto
qed



end
